theory Spec2Isabelle
  imports Main "HOL-Library.Char_ord" "HOL-Library.List_Lexorder" "HOL-Library.AList" "HOL-Library.Sublist"
begin

section \<open>envreq: an environment variable registry\<close>

text \<open>
  A shallow embedding of the Go package \<^verbatim>\<open>envreq\<close>. Go strings are byte sequences and
  are modelled as \<^typ>\<open>string\<close> (one \<^typ>\<open>char\<close> per byte); Go compares strings bytewise
  and lexicographically, which is the order of \<^typ>\<open>char list\<close> used here. A Go
  \<^verbatim>\<open>error\<close> is modelled by its message, \<^verbatim>\<open>nil\<close> by \<^const>\<open>None\<close>.
\<close>

subsection \<open>Data model\<close>

type_synonym error = string

text \<open>The struct \<^verbatim>\<open>Requirement\<close>; a \<^verbatim>\<open>nil\<close> validator is \<^const>\<open>None\<close>.\<close>

record Requirement =
  Name :: string
  Source :: string
  Description :: string
  Optional :: bool
  Default :: string
  Validate :: "(string \<Rightarrow> error option) option"
  Sensitive :: bool

text \<open>The struct \<^verbatim>\<open>Result\<close>, which embeds a \<^verbatim>\<open>Requirement\<close>.\<close>

record Result = Requirement +
  Present :: bool
  Value :: string
  Err :: "error option"

subsection \<open>The validator \<^verbatim>\<open>Port\<close>\<close>

text \<open>
  The loop \<^verbatim>\<open>for _, r := range v\<close> walks the runes of \<^verbatim>\<open>v\<close> and returns at the first
  one outside \<^verbatim>\<open>'0'..'9'\<close>. A byte below 0x80 is its own rune; any byte from 0x80 on
  belongs to a rune above \<^verbatim>\<open>'9'\<close> (or decodes to U+FFFD), so the loop over bytes returns
  the same error for the same strings.
\<close>

fun Port_digits :: "string \<Rightarrow> error option" where
  "Port_digits [] = None"
| "Port_digits (r # rs) =
     (if r < CHR ''0'' \<or> r > CHR ''9'' then Some ''port must be numeric''
      else Port_digits rs)"

definition Port :: "string \<Rightarrow> error option" where
  "Port v =
     (if v = [] then Some ''port cannot be empty''
      else if length v = 0 \<or> length v > 5 then Some ''invalid port number''
      else (case Port_digits v of
              Some e \<Rightarrow> Some e
            | None \<Rightarrow>
                if v = ''0'' \<or> (length v = 5 \<and> v > ''65535'')
                then Some ''port must be between 1 and 65535''
                else None))"

text \<open>The integer a string of decimal digits denotes (what an integer parse would give).\<close>

definition digit_val :: "char \<Rightarrow> nat" where
  "digit_val c = of_char c - 48"

definition decimal :: "string \<Rightarrow> nat" where
  "decimal v = foldl (\<lambda>acc c. 10 * acc + digit_val c) 0 v"

definition is_digit :: "char \<Rightarrow> bool" where
  "is_digit c \<longleftrightarrow> CHR ''0'' \<le> c \<and> c \<le> CHR ''9''"

subsection \<open>The registry state\<close>

text \<open>
  The package variables \<^verbatim>\<open>reg\<close>, \<^verbatim>\<open>cache\<close> and \<^verbatim>\<open>frozen\<close>. The two Go maps are
  association lists with unique keys: \<^const>\<open>map_of\<close> reads a key and \<^const>\<open>AList.update\<close>
  stores one. The field \<open>stderr\<close> collects what the package writes to standard error,
  one entry per write: the lines of the standard logger (without the date and time
  the logger puts in front) and the text of a report.
\<close>

record registry =
  reg :: "(string \<times> Requirement) list"
  cache :: "(string \<times> Result) list"
  frozen :: bool
  stderr :: "string list"

definition init_registry :: registry where
  "init_registry = \<lparr>reg = [], cache = [], frozen = False, stderr = []\<rparr>"

text \<open>The process environment: \<^verbatim>\<open>os.LookupEnv\<close> is the map itself, \<^verbatim>\<open>os.Getenv\<close> gives
  the empty string for a variable that is not set.\<close>

type_synonym env = "string \<rightharpoonup> string"

definition Getenv :: "env \<Rightarrow> string \<Rightarrow> string" where
  "Getenv e k = (case e k of Some v \<Rightarrow> v | None \<Rightarrow> [])"

text \<open>How a call ends: it returns, it panics with a message, or it exits the process.\<close>

datatype 'a outcome = Returned 'a | Panicked string | Exited int

definition log_print :: "string \<Rightarrow> registry \<Rightarrow> registry" where
  "log_print msg s = s\<lparr>stderr := stderr s @ [msg @ [CHR 0x0A]]\<rparr>"

definition write_stderr :: "string \<Rightarrow> registry \<Rightarrow> registry" where
  "write_stderr txt s = s\<lparr>stderr := stderr s @ [txt]\<rparr>"

subsection \<open>Report\<close>

text \<open>
  \<^verbatim>\<open>fmt\<close> pads \<^verbatim>\<open>%-20s\<close> on the right with spaces up to a width counted in runes
  (\<^verbatim>\<open>utf8.RuneCountInString\<close>): \<open>rune_size\<close> is the number of bytes the UTF-8 decoder
  takes for the rune that starts with byte \<open>c\<close> and goes on with \<open>cs\<close>; an invalid or
  cut sequence counts as one byte.
\<close>

definition in_range :: "nat \<Rightarrow> nat \<Rightarrow> char \<Rightarrow> bool" where
  "in_range lo hi c \<longleftrightarrow> lo \<le> of_char c \<and> of_char c \<le> hi"

definition rune_size :: "char \<Rightarrow> string \<Rightarrow> nat" where
  "rune_size c cs =
     (let b = (of_char c :: nat);
          two = (\<lambda>lo hi. case cs of c1 # _ \<Rightarrow> if in_range lo hi c1 then 2 else 1 | _ \<Rightarrow> 1);
          three = (\<lambda>lo hi. case cs of c1 # c2 # _ \<Rightarrow>
                     if in_range lo hi c1 \<and> in_range 0x80 0xBF c2 then 3 else 1 | _ \<Rightarrow> 1);
          four = (\<lambda>lo hi. case cs of c1 # c2 # c3 # _ \<Rightarrow>
                     if in_range lo hi c1 \<and> in_range 0x80 0xBF c2 \<and> in_range 0x80 0xBF c3
                     then 4 else 1 | _ \<Rightarrow> 1)
      in if b < 0x80 then 1
         else if 0xC2 \<le> b \<and> b \<le> 0xDF then two 0x80 0xBF
         else if b = 0xE0 then three 0xA0 0xBF
         else if b = 0xED then three 0x80 0x9F
         else if 0xE1 \<le> b \<and> b \<le> 0xEF then three 0x80 0xBF
         else if b = 0xF0 then four 0x90 0xBF
         else if 0xF1 \<le> b \<and> b \<le> 0xF3 then four 0x80 0xBF
         else if b = 0xF4 then four 0x80 0x8F
         else 1)"

fun rune_count :: "string \<Rightarrow> nat" where
  "rune_count [] = 0"
| "rune_count (c # cs) = Suc (rune_count (drop (rune_size c cs - 1) cs))"

definition pad_right :: "nat \<Rightarrow> string \<Rightarrow> string" where
  "pad_right w s = s @ replicate (w - rune_count s) CHR '' ''"

text \<open>The format \<^verbatim>\<open>"%-20s %-12s %-8s %-9s %-8s %s\n"\<close>.\<close>

definition format_row :: "string \<Rightarrow> string \<Rightarrow> string \<Rightarrow> string \<Rightarrow> string \<Rightarrow> string \<Rightarrow> string" where
  "format_row a b c d e f =
     pad_right 20 a @ '' '' @ pad_right 12 b @ '' '' @ pad_right 8 c @ '' '' @
     pad_right 9 d @ '' '' @ pad_right 8 e @ '' '' @ f @ [CHR 0x0A]"

text \<open>Four bullets U+2022, as UTF-8.\<close>

definition bullets :: string where
  "bullets = concat (replicate 4 [CHR 0xE2, CHR 0x80, CHR 0xA2])"

text \<open>The body of the loop over \<^verbatim>\<open>results\<close>: the status, the details and the new count.\<close>

definition report_entry :: "bool \<Rightarrow> Result \<Rightarrow> nat \<Rightarrow> string \<times> string \<times> nat" where
  "report_entry showValues res missing =
     (if \<not> Present res \<and> \<not> Optional res then (''missing'', Description res, missing + 1)
      else (case Err res of
        Some e \<Rightarrow>
          (''invalid'', ''Error: '' @ e, if \<not> Optional res then missing + 1 else missing)
      | None \<Rightarrow>
          if showValues \<and> Present res \<and> \<not> Sensitive res then
            (if length (Value res) > 20
             then (''ok'', Description res @ '' (value: '' @ take 17 (Value res) @ ''...)'', missing)
             else (''ok'', Description res @ '' (value: '' @ Value res @ '')'', missing))
          else if showValues \<and> Present res \<and> Sensitive res then
            (if length (Value res) \<ge> 4
             then (''ok'', Description res @ '' (value: '' @ bullets @
                            drop (length (Value res) - 4) (Value res) @ '')'', missing)
             else (''ok'', Description res @ '' (value: '' @ bullets @ '')'', missing))
          else (''ok'', Description res, missing)))"

fun Report_loop :: "bool \<Rightarrow> Result list \<Rightarrow> string \<times> nat \<Rightarrow> string \<times> nat" where
  "Report_loop showValues [] (w, missing) = (w, missing)"
| "Report_loop showValues (res # rest) (w, missing) =
     (let required = (if \<not> Optional res then ''yes'' else ''no'');
          sensitive = (if Sensitive res then ''yes'' else ''no'');
          (status, details, missing') = report_entry showValues res missing
      in Report_loop showValues rest
           (w @ format_row (Name res) (Source res) required sensitive status details, missing'))"

text \<open>\<^verbatim>\<open>Report\<close> gives the text written to \<^verbatim>\<open>w\<close> and the count it returns.\<close>

definition Report :: "env \<Rightarrow> Result list \<Rightarrow> string \<times> nat" where
  "Report e results =
     (let showValues = (Getenv e ''ENVREQ_SHOW_VALUES'' = ''1'');
          dash = (\<lambda>n. replicate n CHR ''-'');
          header = format_row ''ENV'' ''SOURCE'' ''REQUIRED'' ''SENSITIVE'' ''STATUS'' ''DETAILS'' @
                   format_row (dash 20) (dash 12) (dash 8) (dash 9) (dash 8) (dash 20)
      in Report_loop showValues results (header, 0))"

subsection \<open>Check\<close>

text \<open>The merge of an incoming requirement into the registered one (the branch
  \<^verbatim>\<open>if existing, ok := reg[r.Name]; ok\<close>).\<close>

definition merge_requirement :: "Requirement \<Rightarrow> Requirement \<Rightarrow> Requirement" where
  "merge_requirement existing r =
     (let merged = existing;
          merged = (if \<not> Optional existing \<or> \<not> Optional r
                    then merged\<lparr>Optional := False\<rparr> else merged);
          merged = (if Description merged = [] \<and> Description r \<noteq> []
                    then merged\<lparr>Description := Description r\<rparr> else merged);
          merged = (if Source merged = [] \<and> Source r \<noteq> []
                    then merged\<lparr>Source := Source r\<rparr> else merged);
          merged = (if Validate merged = None \<and> Validate r \<noteq> None
                    then merged\<lparr>Validate := Validate r\<rparr> else merged);
          merged = (if Default merged = [] \<and> Default r \<noteq> []
                    then merged\<lparr>Default := Default r\<rparr> else merged);
          merged = (if Sensitive existing \<or> Sensitive r
                    then merged\<lparr>Sensitive := True\<rparr> else merged)
      in merged)"

text \<open>The first locked section of \<^verbatim>\<open>Check\<close>: it stores the merged or the new requirement
  under the key \<^verbatim>\<open>r.Name\<close> and gives the requirement the rest of the call works with.\<close>

definition register :: "Requirement \<Rightarrow> registry \<Rightarrow> Requirement \<times> registry" where
  "register r s =
     (case map_of (reg s) (Name r) of
        Some existing \<Rightarrow>
          (let merged = merge_requirement existing r
           in (merged, s\<lparr>reg := AList.update (Name r) merged (reg s)\<rparr>))
      | None \<Rightarrow> (r, s\<lparr>reg := AList.update (Name r) r (reg s)\<rparr>))"

text \<open>Reading the environment, the default and the validator: the \<^verbatim>\<open>Result\<close> that
  \<^verbatim>\<open>Check\<close> builds when nothing is cached.\<close>

definition resolve :: "env \<Rightarrow> Requirement \<Rightarrow> Result" where
  "resolve e r =
     (let (val, ok) = (case e (Name r) of Some v \<Rightarrow> (v, True) | None \<Rightarrow> ([], False));
          (val, ok) = (if \<not> ok \<and> Default r \<noteq> [] then (Default r, True) else (val, ok));
          verr = (if ok then (case Validate r of Some f \<Rightarrow> f val | None \<Rightarrow> None) else None)
      in \<lparr>Name = Name r, Source = Source r, Description = Description r,
          Optional = Optional r, Default = Default r, Validate = Validate r,
          Sensitive = Sensitive r, Present = ok, Value = val, Err = verr\<rparr>)"

text \<open>The rest of \<^verbatim>\<open>Check\<close>: the cached \<^verbatim>\<open>Result\<close> if there is one, else a new one,
  stored in the cache.\<close>

definition load :: "env \<Rightarrow> Requirement \<Rightarrow> registry \<Rightarrow> Result \<times> registry" where
  "load e r s =
     (case map_of (cache s) (Name r) of
        Some cached \<Rightarrow> (cached, s)
      | None \<Rightarrow>
          (let res = resolve e r
           in (res, s\<lparr>cache := AList.update (Name r) res (cache s)\<rparr>)))"

text \<open>Everything \<^verbatim>\<open>Check\<close> does after the freeze gate, from the first
  \<^verbatim>\<open>mu.Lock()\<close> to \<^verbatim>\<open>return res\<close>.\<close>

definition merge_and_load :: "env \<Rightarrow> Requirement \<Rightarrow> registry \<Rightarrow> Result \<times> registry" where
  "merge_and_load e r s = (let (r', s1) = register r s in load e r' s1)"

definition warning_message :: "Requirement \<Rightarrow> string" where
  "warning_message r =
     [CHR 0xE2, CHR 0x9A, CHR 0xA0, CHR 0xEF, CHR 0xB8, CHR 0x8F] @
     ''  envreq: Optional environment variable registered after Freeze(): '' @
     Name r @ '' (from '' @ Source r @ '')''"

definition fatal_message :: "Requirement \<Rightarrow> string" where
  "fatal_message r =
     [CHR 0xF0, CHR 0x9F, CHR 0x9A, CHR 0xA8] @
     '' envreq: REQUIRED environment variable registered after Freeze(): '' @
     Name r @ '' (from '' @ Source r @ '')''"

definition state_header :: string where
  "state_header =
     [CHR 0xF0, CHR 0x9F, CHR 0x93, CHR 0x8B] @
     '' envreq: Complete environment state at time of panic:''"

definition panic_message :: "Requirement \<Rightarrow> string" where
  "panic_message r =
     ''envreq: REQUIRED environment variable '' @ [CHR 0x27] @ Name r @ [CHR 0x27] @
     '' registered after Freeze() (from: '' @ Source r @ '')'' @ [CHR 0x0A] @
     ''All required environment variables must be registered before Freeze().'' @ [CHR 0x0A] @
     ''Move this Check() call earlier in initialization.''"

text \<open>The first loop of \<^verbatim>\<open>CheckAll\<close>: the cached results and the requirements without
  one, each in the order the registry is walked. Go walks a map in an order it does
  not fix; the model walks the association list from its head. The results are sorted
  by name at the end (\<^verbatim>\<open>sort.Slice\<close> with \<^verbatim>\<open><\<close> on \<^verbatim>\<open>Name\<close>, here \<^const>\<open>sort_key\<close>), so
  the order of the walk shows only among results of the same name.\<close>

fun split_cached :: "(string \<times> Requirement) list \<Rightarrow> (string \<times> Result) list
    \<Rightarrow> Result list \<times> Requirement list" where
  "split_cached [] c = ([], [])"
| "split_cached ((name, req) # rest) c =
     (let (out, unchecked) = split_cached rest c
      in case map_of c name of
           Some res \<Rightarrow> (res # out, unchecked)
         | None \<Rightarrow> (out, req # unchecked))"

text \<open>
  \<^verbatim>\<open>Check\<close> calls \<^verbatim>\<open>CheckAll\<close> before it panics and \<^verbatim>\<open>CheckAll\<close> calls \<^verbatim>\<open>Check\<close> for
  every requirement without a result. The first argument bounds the depth of these
  calls; \<^const>\<open>None\<close> says that the bound was reached. \<open>check_unchecked\<close> is the second
  loop of \<^verbatim>\<open>CheckAll\<close>; a panic inside it ends \<^verbatim>\<open>CheckAll\<close>.
\<close>

fun Check :: "nat \<Rightarrow> env \<Rightarrow> Requirement \<Rightarrow> registry \<Rightarrow> (Result outcome \<times> registry) option"
and CheckAll :: "nat \<Rightarrow> env \<Rightarrow> registry \<Rightarrow> (Result list outcome \<times> registry) option"
and check_unchecked :: "nat \<Rightarrow> env \<Rightarrow> Requirement list \<Rightarrow> Result list \<Rightarrow> registry
    \<Rightarrow> (Result list outcome \<times> registry) option"
where
  "Check 0 e r s = None"
| "Check (Suc n) e r s =
     (if frozen s \<and> map_of (reg s) (Name r) = None \<and> \<not> Optional r then
        (case CheckAll n e (log_print state_header (log_print (fatal_message r) s)) of
           None \<Rightarrow> None
         | Some (Returned results, s') \<Rightarrow>
             Some (Panicked (panic_message r), write_stderr (fst (Report e results)) s')
         | Some (Panicked m, s') \<Rightarrow> Some (Panicked m, s')
         | Some (Exited c, s') \<Rightarrow> Some (Exited c, s'))
      else
        (let s0 = (if frozen s \<and> map_of (reg s) (Name r) = None
                   then log_print (warning_message r) s else s);
             (res, s1) = merge_and_load e r s0
         in Some (Returned res, s1)))"
| "CheckAll 0 e s = None"
| "CheckAll (Suc n) e s =
     (let (out, unchecked) = split_cached (reg s) (cache s)
      in case check_unchecked n e unchecked out s of
           None \<Rightarrow> None
         | Some (Returned out', s') \<Rightarrow> Some (Returned (sort_key Name out'), s')
         | Some (Panicked m, s') \<Rightarrow> Some (Panicked m, s')
         | Some (Exited c, s') \<Rightarrow> Some (Exited c, s'))"
| "check_unchecked n e [] out s = Some (Returned out, s)"
| "check_unchecked n e (req # rest) out s =
     (case Check n e req s of
        None \<Rightarrow> None
      | Some (Returned res, s') \<Rightarrow> check_unchecked n e rest (out @ [res]) s'
      | Some (Panicked m, s') \<Rightarrow> Some (Panicked m, s')
      | Some (Exited c, s') \<Rightarrow> Some (Exited c, s'))"

subsection \<open>Value, MustValidate, Freeze, Reset\<close>

definition Value_lookup :: "registry \<Rightarrow> string \<Rightarrow> string \<times> bool" where
  "Value_lookup s name =
     (case map_of (cache s) name of
        Some res \<Rightarrow> (Value res, Present res)
      | None \<Rightarrow> ([], False))"

text \<open>The verb \<^verbatim>\<open>%d\<close> on a count.\<close>

fun show_nat :: "nat \<Rightarrow> string" where
  "show_nat n =
     (if n < 10 then [char_of (48 + n)]
      else show_nat (n div 10) @ [char_of (48 + n mod 10)])"

definition missing_message :: "nat \<Rightarrow> string" where
  "missing_message missing =
     [CHR 0x0A] @ show_nat missing @ '' required environment variable(s) missing or invalid'' @
     [CHR 0x0A]"

definition MustValidate :: "nat \<Rightarrow> env \<Rightarrow> registry \<Rightarrow> (unit outcome \<times> registry) option" where
  "MustValidate n e s =
     (case CheckAll n e s of
        None \<Rightarrow> None
      | Some (Returned results, s') \<Rightarrow>
          (let (txt, missing) = Report e results;
               s1 = write_stderr txt s'
           in if missing > 0
              then Some (Exited 2, write_stderr (missing_message missing) s1)
              else Some (Returned (), s1))
      | Some (Panicked m, s') \<Rightarrow> Some (Panicked m, s')
      | Some (Exited c, s') \<Rightarrow> Some (Exited c, s'))"

definition Freeze :: "registry \<Rightarrow> registry" where
  "Freeze s =
     log_print ''envreq: Registry frozen - new required registrations will panic''
       (s\<lparr>frozen := True\<rparr>)"

definition Reset :: "registry \<Rightarrow> registry" where
  "Reset s = s\<lparr>reg := [], cache := [], frozen := False\<rparr>"

subsection \<open>Sequences of calls\<close>

text \<open>The calls a program can make, each with the environment of the moment. A caller
  can recover from the panic of \<^verbatim>\<open>Check\<close>, so the registry it leaves is the state of
  the next call. \<^verbatim>\<open>Value\<close> and \<^verbatim>\<open>Report\<close> leave the registry as it is.\<close>

datatype call = CallCheck Requirement | CallCheckAll | CallValue string
  | CallReport "Result list" | CallFreeze | CallReset

fun call_step :: "nat \<Rightarrow> env \<Rightarrow> call \<Rightarrow> registry \<Rightarrow> registry option" where
  "call_step n e (CallCheck r) s = map_option snd (Check n e r s)"
| "call_step n e CallCheckAll s = map_option snd (CheckAll n e s)"
| "call_step n e (CallValue name) s = Some s"
| "call_step n e (CallReport results) s = Some s"
| "call_step n e CallFreeze s = Some (Freeze s)"
| "call_step n e CallReset s = Some (Reset s)"

fun run_calls :: "nat \<Rightarrow> (env \<times> call) list \<Rightarrow> registry \<Rightarrow> registry option" where
  "run_calls n [] s = Some s"
| "run_calls n ((e, c) # cs) s =
     (case call_step n e c s of None \<Rightarrow> None | Some s' \<Rightarrow> run_calls n cs s')"

fun is_reset :: "call \<Rightarrow> bool" where
  "is_reset CallReset = True"
| "is_reset c = False"

subsection \<open>Concurrent calls of Check\<close>

text \<open>
  Goroutines that call \<^verbatim>\<open>Check\<close> at the same time. A thread is the point its call has
  reached; a step is what the call does between two lock operations, which no other
  call can interleave with: the load of \<^verbatim>\<open>frozen\<close>, the merge under \<^verbatim>\<open>mu.Lock\<close>, the
  look into the cache under \<^verbatim>\<open>mu.RLock\<close>, the resolution (environment, default and
  validator, under no lock), and the store under \<^verbatim>\<open>mu.Lock\<close>. The model follows the
  calls on an open registry; a call that finds the registry frozen stays in
  \<open>InFrozenGate\<close>. The state counts the reads of the environment and the calls of
  validators. A schedule names the thread that takes the next step.
\<close>

datatype thread = AtGate Requirement | InFrozenGate Requirement | AtMerge Requirement
  | AtLookup Requirement | AtResolve Requirement | AtStore Result | Done Result

record conc =
  shared :: registry
  env_reads :: nat
  validator_calls :: nat
  threads :: "thread list"

fun thread_step :: "env \<Rightarrow> thread \<Rightarrow> registry \<times> nat \<times> nat
    \<Rightarrow> thread \<times> registry \<times> nat \<times> nat" where
  "thread_step e (AtGate r) (s, reads, calls) =
     (if frozen s then InFrozenGate r else AtMerge r, s, reads, calls)"
| "thread_step e (AtMerge r) (s, reads, calls) =
     (let (r', s') = register r s in (AtLookup r', s', reads, calls))"
| "thread_step e (AtLookup r) (s, reads, calls) =
     (case map_of (cache s) (Name r) of
        Some cached \<Rightarrow> (Done cached, s, reads, calls)
      | None \<Rightarrow> (AtResolve r, s, reads, calls))"
| "thread_step e (AtResolve r) (s, reads, calls) =
     (let res = resolve e r
      in (AtStore res, s, reads + 1,
          if Present res \<and> Validate r \<noteq> None then calls + 1 else calls))"
| "thread_step e (AtStore res) (s, reads, calls) =
     (Done res, s\<lparr>cache := AList.update (Name res) res (cache s)\<rparr>, reads, calls)"
| "thread_step e (InFrozenGate r) (s, reads, calls) = (InFrozenGate r, s, reads, calls)"
| "thread_step e (Done res) (s, reads, calls) = (Done res, s, reads, calls)"

fun run_schedule :: "env \<Rightarrow> nat list \<Rightarrow> conc \<Rightarrow> conc" where
  "run_schedule e [] c = c"
| "run_schedule e (i # sched) c =
     run_schedule e sched
       (if i < length (threads c)
        then (let (t', s', reads, calls) =
                    thread_step e (threads c ! i) (shared c, env_reads c, validator_calls c)
              in c\<lparr>shared := s', env_reads := reads, validator_calls := calls,
                    threads := (threads c)[i := t']\<rparr>)
        else c)"

subsection \<open>Sequences of declarations\<close>

text \<open>A run of \<^verbatim>\<open>Check\<close> calls with the outcome of each, and the declarations of a name
  among them: the requirements of the calls for that name that returned. The canonical
  requirement the specification describes is stated with \<open>first_nonempty\<close> and
  \<open>first_some\<close>; \<open>merge_all\<close> folds the merge of the code over the declarations.\<close>

fun run_checks :: "nat \<Rightarrow> (env \<times> Requirement) list \<Rightarrow> registry
    \<Rightarrow> (Result outcome list \<times> registry) option" where
  "run_checks n [] s = Some ([], s)"
| "run_checks n ((e, r) # calls) s =
     (case Check n e r s of
        None \<Rightarrow> None
      | Some (out, s') \<Rightarrow>
          (case run_checks n calls s' of
             None \<Rightarrow> None
           | Some (outs, s'') \<Rightarrow> Some (out # outs, s'')))"

fun is_returned :: "'a outcome \<Rightarrow> bool" where
  "is_returned (Returned x) = True"
| "is_returned out = False"

fun accepted :: "string \<Rightarrow> (env \<times> Requirement) list \<Rightarrow> Result outcome list
    \<Rightarrow> Requirement list" where
  "accepted N ((e, r) # calls) (out # outs) =
     (if Name r = N \<and> is_returned out then r # accepted N calls outs
      else accepted N calls outs)"
| "accepted N calls outs = []"

fun first_nonempty :: "string list \<Rightarrow> string" where
  "first_nonempty [] = []"
| "first_nonempty (x # xs) = (if x \<noteq> [] then x else first_nonempty xs)"

fun first_some :: "'a option list \<Rightarrow> 'a option" where
  "first_some [] = None"
| "first_some (x # xs) = (if x \<noteq> None then x else first_some xs)"

fun merge_all :: "Requirement option \<Rightarrow> Requirement list \<Rightarrow> Requirement option" where
  "merge_all x [] = x"
| "merge_all None (d # ds) = merge_all (Some d) ds"
| "merge_all (Some ex) (d # ds) = merge_all (Some (merge_requirement ex d)) ds"

subsection \<open>Invariants of the registry\<close>

text \<open>Every requirement is stored under its own name, and every name with a cached
  result has a requirement.\<close>

definition keys_named :: "registry \<Rightarrow> bool" where
  "keys_named s \<longleftrightarrow> (\<forall>(k, r) \<in> set (reg s). Name r = k)"

text \<open>The association list of the requirements stands for a Go map: no key twice.\<close>

definition reg_ok :: "registry \<Rightarrow> bool" where
  "reg_ok s \<longleftrightarrow> distinct (map fst (reg s)) \<and> keys_named s"

definition cache_backed :: "registry \<Rightarrow> bool" where
  "cache_backed s \<longleftrightarrow> dom (map_of (cache s)) \<subseteq> dom (map_of (reg s))"

definition requirement_of :: "Result \<Rightarrow> Requirement" where
  "requirement_of res =
     \<lparr>Name = Name res, Source = Source res, Description = Description res,
      Optional = Optional res, Default = Default res, Validate = Validate res,
      Sensitive = Sensitive res\<rparr>"

subsection \<open>Example values\<close>

definition req_missing :: Requirement where
  "req_missing = \<lparr>Name = ''MISSING_VAR'', Source = ''test'',
     Description = ''A missing required variable'', Optional = False, Default = [],
     Validate = None, Sensitive = False\<rparr>"

definition res_missing :: Result where
  "res_missing = \<lparr>Name = ''MISSING_VAR'', Source = ''test'',
     Description = ''A missing required variable'', Optional = False, Default = [],
     Validate = None, Sensitive = False, Present = False, Value = [], Err = None\<rparr>"

definition res_present :: Result where
  "res_present = \<lparr>Name = ''PRESENT_VAR'', Source = ''test'',
     Description = ''A present variable'', Optional = False, Default = [],
     Validate = None, Sensitive = False, Present = True, Value = ''value'', Err = None\<rparr>"

definition res_invalid :: Result where
  "res_invalid = \<lparr>Name = ''INVALID_VAR'', Source = ''test'',
     Description = ''Invalid port'', Optional = False, Default = [],
     Validate = Some Port, Sensitive = False, Present = True, Value = ''99999'',
     Err = Some ''port must be between 1 and 65535''\<rparr>"

definition st_missing :: registry where
  "st_missing = \<lparr>reg = [(''MISSING_VAR'', req_missing)], cache = [(''MISSING_VAR'', res_missing)],
     frozen = False, stderr = []\<rparr>"

definition st_three :: registry where
  "st_three = \<lparr>reg = [(''PRESENT_VAR'', requirement_of res_present),
                        (''MISSING_VAR'', req_missing),
                        (''INVALID_VAR'', requirement_of res_invalid)],
     cache = [(''PRESENT_VAR'', res_present), (''MISSING_VAR'', res_missing),
              (''INVALID_VAR'', res_invalid)],
     frozen = False, stderr = []\<rparr>"

definition quoting_validator :: "string \<Rightarrow> error option" where
  "quoting_validator v = Some (''invalid duration: time: invalid duration '' @ [CHR 0x22] @ v @ [CHR 0x22])"

definition req_leak :: Requirement where
  "req_leak = \<lparr>Name = ''API_SECRET'', Source = ''payments'', Description = ''API secret key'',
     Optional = False, Default = [], Validate = Some quoting_validator, Sensitive = True\<rparr>"

definition env_leak :: env where
  "env_leak = [''API_SECRET'' \<mapsto> ''sk_test_1234567890'']"

definition res_leak :: Result where
  "res_leak = \<lparr>Name = ''API_SECRET'', Source = ''payments'', Description = ''API secret key'',
     Optional = False, Default = [], Validate = Some quoting_validator, Sensitive = True,
     Present = True, Value = ''sk_test_1234567890'',
     Err = Some (''invalid duration: time: invalid duration '' @ [CHR 0x22] @ ''sk_test_1234567890'' @ [CHR 0x22])\<rparr>"

definition req_port_plain :: Requirement where
  "req_port_plain = \<lparr>Name = ''PORT'', Source = ''server'', Description = [],
     Optional = True, Default = [], Validate = None, Sensitive = False\<rparr>"

definition req_port_strict :: Requirement where
  "req_port_strict = \<lparr>Name = ''PORT'', Source = ''admin'', Description = ''Listen port'',
     Optional = False, Default = ''8080'', Validate = Some Port, Sensitive = True\<rparr>"

definition res_port_plain :: Result where
  "res_port_plain = \<lparr>Name = ''PORT'', Source = ''server'', Description = [],
     Optional = True, Default = [], Validate = None, Sensitive = False,
     Present = False, Value = [], Err = None\<rparr>"


definition req_late_optional :: Requirement where
  "req_late_optional = \<lparr>Name = ''LATE'', Source = ''worker'', Description = [],
     Optional = True, Default = ''x'', Validate = None, Sensitive = False\<rparr>"

definition st_port_frozen :: registry where
  "st_port_frozen = \<lparr>reg = [(''PORT'', req_port_plain)], cache = [(''PORT'', res_port_plain)],
     frozen = True, stderr = []\<rparr>"

definition res_port_merged :: Result where
  "res_port_merged = \<lparr>Name = ''PORT'', Source = ''server'', Description = ''Listen port'',
     Optional = False, Default = ''8080'', Validate = Some Port, Sensitive = True,
     Present = True, Value = ''8080'', Err = None\<rparr>"

definition res_port_strict :: Result where
  "res_port_strict = \<lparr>Name = ''PORT'', Source = ''admin'', Description = ''Listen port'',
     Optional = False, Default = ''8080'', Validate = Some Port, Sensitive = True,
     Present = True, Value = ''8080'', Err = None\<rparr>"

section \<open>Properties\<close>

subsection \<open>The steps of Check\<close>

lemma map_of_update: "map_of (AList.update k v al) = (map_of al)(k \<mapsto> v)"
  by (rule update_conv')

lemma set_update_subset: "set (AList.update k v al) \<subseteq> insert (k, v) (set al)"
  by (induction al) auto

lemma if_update:
  "(if c then m\<lparr>Optional := o1\<rparr> else m) = m\<lparr>Optional := (if c then o1 else Optional m)\<rparr>"
  "(if c then m\<lparr>Description := d1\<rparr> else m) = m\<lparr>Description := (if c then d1 else Description m)\<rparr>"
  "(if c then m\<lparr>Source := s1\<rparr> else m) = m\<lparr>Source := (if c then s1 else Source m)\<rparr>"
  "(if c then m\<lparr>Validate := v1\<rparr> else m) = m\<lparr>Validate := (if c then v1 else Validate m)\<rparr>"
  "(if c then m\<lparr>Default := f1\<rparr> else m) = m\<lparr>Default := (if c then f1 else Default m)\<rparr>"
  "(if c then m\<lparr>Sensitive := b1\<rparr> else m) = m\<lparr>Sensitive := (if c then b1 else Sensitive m)\<rparr>"
  for m :: Requirement
  by simp_all

lemma merge_requirement_eq:
  "merge_requirement d x =
     d\<lparr>Optional := Optional d \<and> Optional x,
       Description := (if Description d \<noteq> [] then Description d else Description x),
       Source := (if Source d \<noteq> [] then Source d else Source x),
       Validate := (if Validate d \<noteq> None then Validate d else Validate x),
       Default := (if Default d \<noteq> [] then Default d else Default x),
       Sensitive := Sensitive d \<or> Sensitive x\<rparr>"
  unfolding merge_requirement_def
  by (simp add: if_update Let_def split del: if_split cong: if_cong) (simp add: if_split)

lemma merge_requirement_fields:
  "Name (merge_requirement d x) = Name d"
  "Optional (merge_requirement d x) = (Optional d \<and> Optional x)"
  "Sensitive (merge_requirement d x) = (Sensitive d \<or> Sensitive x)"
  "Description (merge_requirement d x) = (if Description d \<noteq> [] then Description d else Description x)"
  "Source (merge_requirement d x) = (if Source d \<noteq> [] then Source d else Source x)"
  "Default (merge_requirement d x) = (if Default d \<noteq> [] then Default d else Default x)"
  "Validate (merge_requirement d x) = (if Validate d \<noteq> None then Validate d else Validate x)"
  by (simp_all add: merge_requirement_eq)

lemma merge_requirement_Name [simp]: "Name (merge_requirement existing r) = Name existing"
  by (rule merge_requirement_fields)

lemma keys_named_lookup: "keys_named s \<Longrightarrow> map_of (reg s) k = Some r \<Longrightarrow> Name r = k"
  by (auto simp: keys_named_def dest: map_of_SomeD)

lemma register_props:
  assumes "keys_named s" and "register r s = (r', s')"
  shows "Name r' = Name r" and "keys_named s'"
    and "map_of (reg s') = (map_of (reg s))(Name r \<mapsto> r')"
    and "cache s' = cache s" and "frozen s' = frozen s" and "stderr s' = stderr s"
    and "r' = (case map_of (reg s) (Name r) of Some ex \<Rightarrow> merge_requirement ex r | None \<Rightarrow> r)"
proof -
  show r': "r' = (case map_of (reg s) (Name r) of Some ex \<Rightarrow> merge_requirement ex r | None \<Rightarrow> r)"
    using assms(2) by (auto simp: register_def Let_def split: option.splits)
  show n: "Name r' = Name r"
    using assms(1) r' by (auto split: option.splits dest: keys_named_lookup)
  have s': "s' = s\<lparr>reg := AList.update (Name r) r' (reg s)\<rparr>"
    using assms(2) by (auto simp: register_def Let_def split: option.splits)
  show "map_of (reg s') = (map_of (reg s))(Name r \<mapsto> r')"
    by (simp add: s' map_of_update)
  show "cache s' = cache s" "frozen s' = frozen s" "stderr s' = stderr s"
    by (simp_all add: s')
  show "keys_named s'"
    using assms(1) n set_update_subset [of "Name r" r' "reg s"]
    by (auto simp: keys_named_def s')
qed

lemma load_props:
  assumes "load e r s = (res, s')"
  shows "reg s' = reg s" and "frozen s' = frozen s" and "stderr s' = stderr s"
    and "map_of (cache s') = (map_of (cache s))(Name r \<mapsto> res)"
    and "res = (case map_of (cache s) (Name r) of Some c \<Rightarrow> c | None \<Rightarrow> resolve e r)"
    and "map_of (cache s) (Name r) \<noteq> None \<Longrightarrow> s' = s"
  using assms
  by (auto simp: load_def Let_def map_of_update split: option.splits)

lemma merge_and_load_props:
  assumes "keys_named s" and "merge_and_load e r s = (res, s')"
  shows "keys_named s'"
    and "map_of (reg s') = (map_of (reg s))(Name r \<mapsto> 
           (case map_of (reg s) (Name r) of Some ex \<Rightarrow> merge_requirement ex r | None \<Rightarrow> r))"
    and "map_of (cache s') = (map_of (cache s))(Name r \<mapsto> res)"
    and "res = (case map_of (cache s) (Name r) of Some c \<Rightarrow> c 
                | None \<Rightarrow> resolve e (case map_of (reg s) (Name r) of Some ex \<Rightarrow> merge_requirement ex r | None \<Rightarrow> r))"
    and "frozen s' = frozen s" and "stderr s' = stderr s"
proof -
  obtain r' s1 where reg: "register r s = (r', s1)" by (cases "register r s")
  then have ld: "load e r' s1 = (res, s')" using assms(2) by (simp add: merge_and_load_def)
  note R = register_props [OF assms(1) reg]
  note L = load_props [OF ld]
  show "keys_named s'" using R(2) L(1) by (simp add: keys_named_def)
  show "map_of (reg s') = (map_of (reg s))(Name r \<mapsto> 
           (case map_of (reg s) (Name r) of Some ex \<Rightarrow> merge_requirement ex r | None \<Rightarrow> r))"
    using R(3) R(7) L(1) by simp
  show "map_of (cache s') = (map_of (cache s))(Name r \<mapsto> res)"
    using L(4) R(1) R(4) by simp
  show "res = (case map_of (cache s) (Name r) of Some c \<Rightarrow> c 
                | None \<Rightarrow> resolve e (case map_of (reg s) (Name r) of Some ex \<Rightarrow> merge_requirement ex r | None \<Rightarrow> r))"
    using L(5) unfolding R(1) R(4) R(7) [symmetric] .
  show "frozen s' = frozen s" "stderr s' = stderr s" using R L by simp_all
qed

lemma merge_requirement_self: "merge_requirement r r = r"
  by (rule Requirement.equality) (simp_all add: merge_requirement_fields)

lemma merge_and_load_stored:
  assumes "map_of (reg s) (Name req) = Some req" and "merge_and_load e req s = (res, s')"
  shows "reg s' = reg s" and "frozen s' = frozen s" and "stderr s' = stderr s"
    and "map_of (cache s') = (map_of (cache s))(Name req \<mapsto> res)"
    and "res = (case map_of (cache s) (Name req) of Some c \<Rightarrow> c | None \<Rightarrow> resolve e req)"
proof -
  have reg: "register req s = (req, s)"
    using assms(1) by (simp add: register_def merge_requirement_self update_triv)
  then have ld: "load e req s = (res, s')" using assms(2) by (simp add: merge_and_load_def)
  note L = load_props [OF ld]
  show "reg s' = reg s" "frozen s' = frozen s" "stderr s' = stderr s"
    "map_of (cache s') = (map_of (cache s))(Name req \<mapsto> res)"
    "res = (case map_of (cache s) (Name req) of Some c \<Rightarrow> c | None \<Rightarrow> resolve e req)"
    using L by simp_all
qed

lemma Check_registered:
  "map_of (reg s) (Name r) \<noteq> None \<Longrightarrow>
     Check (Suc n) e r s = Some (Returned (fst (merge_and_load e r s)), snd (merge_and_load e r s))"
  by (auto simp: case_prod_beta)

lemma check_unchecked_stored:
  assumes "\<forall>req\<in>set reqs. map_of (reg s) (Name req) = Some req"
  shows "\<exists>out' s'. check_unchecked (Suc n) e reqs out s = Some (Returned out', s') \<and>
           reg s' = reg s \<and> frozen s' = frozen s \<and> stderr s' = stderr s \<and>
           dom (map_of (cache s')) = dom (map_of (cache s)) \<union> Name ` set reqs \<and>
           (\<forall>k c. map_of (cache s) k = Some c \<longrightarrow> map_of (cache s') k = Some c)"
  using assms
proof (induction reqs arbitrary: out s)
  case Nil
  show ?case by simp
next
  case (Cons req rest)
  obtain res s1 where ml: "merge_and_load e req s = (res, s1)"
    by (cases "merge_and_load e req s")
  have st: "map_of (reg s) (Name req) = Some req" using Cons.prems by simp
  note M = merge_and_load_stored [OF st ml]
  have chk: "Check (Suc n) e req s = Some (Returned res, s1)"
    using st ml by (simp add: Check_registered)
  have "\<forall>q\<in>set rest. map_of (reg s1) (Name q) = Some q"
    using Cons.prems M(1) by simp
  from Cons.IH [OF this, of "out @ [res]"]
  obtain out' s' where IH: "check_unchecked (Suc n) e rest (out @ [res]) s1 = Some (Returned out', s')"
    "reg s' = reg s1" "frozen s' = frozen s1" "stderr s' = stderr s1"
    "dom (map_of (cache s')) = dom (map_of (cache s1)) \<union> Name ` set rest"
    "\<forall>k c. map_of (cache s1) k = Some c \<longrightarrow> map_of (cache s') k = Some c"
    by blast
  have run: "check_unchecked (Suc n) e (req # rest) out s = Some (Returned out', s')"
    using chk IH(1) by simp
  have keep: "\<forall>k c. map_of (cache s) k = Some c \<longrightarrow> map_of (cache s1) k = Some c"
    using M(4) M(5) by (auto split: option.splits)
  have dom1: "dom (map_of (cache s1)) = insert (Name req) (dom (map_of (cache s)))"
    using M(4) by simp
  show ?case
    using run IH(2-6) M(1-3) keep dom1 by auto
qed

lemma split_cached_unchecked:
  "distinct (map fst rg) \<Longrightarrow> split_cached rg c = (out, pending) \<Longrightarrow> req \<in> set pending
     \<Longrightarrow> \<exists>k. map_of rg k = Some req"
proof (induction rg arbitrary: out pending)
  case Nil
  then show ?case by simp
next
  case (Cons p rg)
  obtain name q where p: "p = (name, q)" by (cases p)
  obtain out0 un0 where sc: "split_cached rg c = (out0, un0)" by (cases "split_cached rg c")
  have d: "distinct (map fst rg)" "name \<notin> fst ` set rg" using Cons.prems(1) p by auto
  show ?case
  proof (cases "req \<in> set un0")
    case True
    from Cons.IH [OF d(1) sc True] obtain k where k: "map_of rg k = Some req" by blast
    have "(k, req) \<in> set rg" using k by (rule map_of_SomeD)
    then have "k \<in> fst ` set rg" by force
    then have "k \<noteq> name" using d(2) by auto
    then show ?thesis using k p by auto
  next
    case False
    then have "req = q" using Cons.prems(2,3) p sc by (auto split: option.splits)
    then show ?thesis using p by auto
  qed
qed

lemma CheckAll_returns:
  assumes "reg_ok s"
  shows "\<exists>results s'. CheckAll (Suc (Suc n)) e s = Some (Returned results, s') \<and>
           reg s' = reg s \<and> frozen s' = frozen s \<and> stderr s' = stderr s \<and>
           dom (map_of (cache s')) \<subseteq> dom (map_of (cache s)) \<union> dom (map_of (reg s)) \<and>
           (\<forall>k c. map_of (cache s) k = Some c \<longrightarrow> map_of (cache s') k = Some c)"
proof -
  obtain out pending where sc: "split_cached (reg s) (cache s) = (out, pending)"
    by (cases "split_cached (reg s) (cache s)")
  have st: "\<forall>req\<in>set pending. map_of (reg s) (Name req) = Some req"
  proof
    fix req assume "req \<in> set pending"
    with sc assms obtain k where k: "map_of (reg s) k = Some req"
      using split_cached_unchecked [of "reg s" "cache s" out pending req]
      by (auto simp: reg_ok_def)
    then have "Name req = k" using assms by (auto simp: reg_ok_def dest: keys_named_lookup)
    then show "map_of (reg s) (Name req) = Some req" using k by simp
  qed
  from check_unchecked_stored [OF st, of n e out]
  obtain out' s' where L: "check_unchecked (Suc n) e pending out s = Some (Returned out', s')"
    "reg s' = reg s" "frozen s' = frozen s" "stderr s' = stderr s"
    "dom (map_of (cache s')) = dom (map_of (cache s)) \<union> Name ` set pending"
    "\<forall>k c. map_of (cache s) k = Some c \<longrightarrow> map_of (cache s') k = Some c"
    by blast
  have "CheckAll (Suc (Suc n)) e s = Some (Returned (sort_key Name out'), s')"
    using sc L(1) by simp
  moreover have "Name ` set pending \<subseteq> dom (map_of (reg s))"
    using st by auto
  ultimately show ?thesis using L(2-6) by auto
qed


lemma reg_ok_log_print [simp]: "reg_ok (log_print m s) = reg_ok s"
  by (simp add: reg_ok_def keys_named_def log_print_def)

lemma log_print_fields [simp]:
  "reg (log_print m s) = reg s" "cache (log_print m s) = cache s"
  "frozen (log_print m s) = frozen s" "stderr (log_print m s) = stderr s @ [m @ [CHR 0x0A]]"
  by (simp_all add: log_print_def)

lemma write_stderr_fields [simp]:
  "reg (write_stderr m s) = reg s" "cache (write_stderr m s) = cache s"
  "frozen (write_stderr m s) = frozen s" "stderr (write_stderr m s) = stderr s @ [m]"
  by (simp_all add: write_stderr_def)

lemma merge_and_load_reg_ok:
  assumes "reg_ok s" and "merge_and_load e r s = (res, s')"
  shows "reg_ok s'"
proof -
  obtain r' s1 where rg: "register r s = (r', s1)" by (cases "register r s")
  then have ld: "load e r' s1 = (res, s')" using assms(2) by (simp add: merge_and_load_def)
  have "reg s1 = AList.update (Name r) r' (reg s)"
    using rg by (auto simp: register_def Let_def split: option.splits)
  then have "distinct (map fst (reg s1))"
    using assms(1) by (simp add: reg_ok_def distinct_update)
  moreover have "reg s' = reg s1" using load_props(1) [OF ld] .
  moreover have "keys_named s'"
    using merge_and_load_props(1) [OF _ assms(2)] assms(1) by (simp add: reg_ok_def)
  ultimately show ?thesis by (simp add: reg_ok_def)
qed

text \<open>What a call of \<^verbatim>\<open>Check\<close> that passes the freeze gate does.\<close>

lemma Check_passes:
  assumes "reg_ok s" and "\<not> (frozen s \<and> map_of (reg s) (Name r) = None \<and> \<not> Optional r)"
  shows "\<exists>res s'. Check (Suc n) e r s = Some (Returned res, s') \<and> reg_ok s' \<and>
     map_of (reg s') = (map_of (reg s))(Name r \<mapsto>
        (case map_of (reg s) (Name r) of Some ex \<Rightarrow> merge_requirement ex r | None \<Rightarrow> r)) \<and>
     map_of (cache s') = (map_of (cache s))(Name r \<mapsto> res) \<and>
     res = (case map_of (cache s) (Name r) of Some c \<Rightarrow> c
            | None \<Rightarrow> resolve e (case map_of (reg s) (Name r) of
                                  Some ex \<Rightarrow> merge_requirement ex r | None \<Rightarrow> r)) \<and>
     frozen s' = frozen s \<and>
     stderr s' = (if frozen s \<and> map_of (reg s) (Name r) = None
                  then stderr s @ [warning_message r @ [CHR 0x0A]] else stderr s)"
proof -
  define s0 where "s0 = (if frozen s \<and> map_of (reg s) (Name r) = None
                         then log_print (warning_message r) s else s)"
  obtain res s' where ml: "merge_and_load e r s0 = (res, s')"
    by (cases "merge_and_load e r s0")
  have chk: "Check (Suc n) e r s = Some (Returned res, s')"
    using assms(2) ml by (auto simp: s0_def)
  have ok0: "reg_ok s0" using assms(1) by (simp add: s0_def)
  then have kn: "keys_named s0" by (simp add: reg_ok_def)
  have f0: "reg s0 = reg s" "cache s0 = cache s" "frozen s0 = frozen s"
    by (simp_all add: s0_def)
  have e0: "stderr s0 = (if frozen s \<and> map_of (reg s) (Name r) = None
                  then stderr s @ [warning_message r @ [CHR 0x0A]] else stderr s)"
    by (simp add: s0_def)
  note M = merge_and_load_props [OF kn ml]
  show ?thesis
    using chk merge_and_load_reg_ok [OF ok0 ml] M(2-6) unfolding f0 e0 by blast
qed

lemma Check_panics:
  assumes "reg_ok s" and "frozen s" and "map_of (reg s) (Name r) = None" and "\<not> Optional r"
  shows "\<exists>results s1.
     CheckAll (Suc (Suc n)) e (log_print state_header (log_print (fatal_message r) s)) =
       Some (Returned results, s1) \<and>
     Check (Suc (Suc (Suc n))) e r s =
       Some (Panicked (panic_message r), write_stderr (fst (Report e results)) s1) \<and>
     reg s1 = reg s \<and> frozen s1 = frozen s \<and>
     stderr s1 = stderr s @ [fatal_message r @ [CHR 0x0A], state_header @ [CHR 0x0A]] \<and>
     dom (map_of (cache s1)) \<subseteq> dom (map_of (cache s)) \<union> dom (map_of (reg s)) \<and>
     (\<forall>k c. map_of (cache s) k = Some c \<longrightarrow> map_of (cache s1) k = Some c)"
proof -
  let ?s2 = "log_print state_header (log_print (fatal_message r) s)"
  have "reg_ok ?s2" using assms(1) by simp
  from CheckAll_returns [OF this, of n e]
  obtain results s1 where C: "CheckAll (Suc (Suc n)) e ?s2 = Some (Returned results, s1)"
    "reg s1 = reg ?s2" "frozen s1 = frozen ?s2" "stderr s1 = stderr ?s2"
    "dom (map_of (cache s1)) \<subseteq> dom (map_of (cache ?s2)) \<union> dom (map_of (reg ?s2))"
    "\<forall>k c. map_of (cache ?s2) k = Some c \<longrightarrow> map_of (cache s1) k = Some c"
    by blast
  have "Check (Suc (Suc (Suc n))) e r s =
       Some (Panicked (panic_message r), write_stderr (fst (Report e results)) s1)"
    using assms(2-4) C(1) by simp
  then show ?thesis using C by simp
qed

text \<open>Every call of \<^verbatim>\<open>Check\<close> ends, and keeps the invariants and the cached results.\<close>

lemma Check_total:
  assumes "reg_ok s"
  shows "\<exists>out s'. Check (Suc (Suc (Suc n))) e r s = Some (out, s') \<and> reg_ok s' \<and>
     (cache_backed s \<longrightarrow> cache_backed s') \<and> frozen s' = frozen s \<and>
     (\<forall>k c. map_of (cache s) k = Some c \<longrightarrow> map_of (cache s') k = Some c)"
proof (cases "frozen s \<and> map_of (reg s) (Name r) = None \<and> \<not> Optional r")
  case True
  then have T: "frozen s" "map_of (reg s) (Name r) = None" "\<not> Optional r" by simp_all
  from Check_panics [OF assms T, of n e]
  obtain results s1 where P:
     "Check (Suc (Suc (Suc n))) e r s =
       Some (Panicked (panic_message r), write_stderr (fst (Report e results)) s1)"
     "reg s1 = reg s" "frozen s1 = frozen s"
     "dom (map_of (cache s1)) \<subseteq> dom (map_of (cache s)) \<union> dom (map_of (reg s))"
     "\<forall>k c. map_of (cache s) k = Some c \<longrightarrow> map_of (cache s1) k = Some c"
    by blast
  let ?s' = "write_stderr (fst (Report e results)) s1"
  have "reg_ok ?s'" using assms P(2) by (simp add: reg_ok_def keys_named_def)
  moreover have "cache_backed s \<longrightarrow> cache_backed ?s'"
    using P(2) P(4) by (auto simp: cache_backed_def)
  ultimately show ?thesis using P(1,3,5) by simp
next
  case False
  from Check_passes [OF assms False, of "Suc (Suc n)" e]
  obtain res s' where P: "Check (Suc (Suc (Suc n))) e r s = Some (Returned res, s')" "reg_ok s'"
     "map_of (reg s') = (map_of (reg s))(Name r \<mapsto>
        (case map_of (reg s) (Name r) of Some ex \<Rightarrow> merge_requirement ex r | None \<Rightarrow> r))"
     "map_of (cache s') = (map_of (cache s))(Name r \<mapsto> res)"
     "res = (case map_of (cache s) (Name r) of Some c \<Rightarrow> c
            | None \<Rightarrow> resolve e (case map_of (reg s) (Name r) of
                                  Some ex \<Rightarrow> merge_requirement ex r | None \<Rightarrow> r))"
     "frozen s' = frozen s"
    by blast
  have "cache_backed s \<longrightarrow> cache_backed s'"
    using P(3,4) by (auto simp: cache_backed_def)
  moreover have "\<forall>k c. map_of (cache s) k = Some c \<longrightarrow> map_of (cache s') k = Some c"
    using P(4,5) by (auto split: option.splits)
  ultimately show ?thesis using P(1,2,6) by blast
qed

lemma call_step_total:
  assumes "reg_ok s"
  shows "\<exists>s'. call_step (n + 3) e c s = Some s' \<and> reg_ok s' \<and>
     (cache_backed s \<longrightarrow> cache_backed s') \<and>
     (\<not> is_reset c \<longrightarrow> (\<forall>k x. map_of (cache s) k = Some x \<longrightarrow> map_of (cache s') k = Some x))"
proof (cases c)
  case (CallCheck r)
  from Check_total [OF assms, of n e r] show ?thesis
    using CallCheck by (auto simp: numeral_3_eq_3)
next
  case CallCheckAll
  from CheckAll_returns [OF assms, of "Suc n" e]
  obtain results s' where C: "CheckAll (Suc (Suc (Suc n))) e s = Some (Returned results, s')"
    "reg s' = reg s"
    "dom (map_of (cache s')) \<subseteq> dom (map_of (cache s)) \<union> dom (map_of (reg s))"
    "\<forall>k c. map_of (cache s) k = Some c \<longrightarrow> map_of (cache s') k = Some c"
    by blast
  have "reg_ok s'" using assms C(2) by (simp add: reg_ok_def keys_named_def)
  moreover have "cache_backed s \<longrightarrow> cache_backed s'"
    using C(2,3) by (auto simp: cache_backed_def)
  ultimately show ?thesis using CallCheckAll C(1,4) by (simp add: numeral_3_eq_3)
next
  case (CallValue name)
  then show ?thesis using assms by simp
next
  case (CallReport results)
  then show ?thesis using assms by simp
next
  case CallFreeze
  then show ?thesis using assms
    by (simp add: Freeze_def reg_ok_def keys_named_def cache_backed_def)
next
  case CallReset
  then show ?thesis by (simp add: Reset_def reg_ok_def keys_named_def cache_backed_def)
qed

lemma run_calls_total:
  assumes "reg_ok s"
  shows "\<exists>s'. run_calls (n + 3) calls s = Some s' \<and> reg_ok s' \<and>
     (cache_backed s \<longrightarrow> cache_backed s') \<and>
     ((\<forall>(e, c)\<in>set calls. \<not> is_reset c) \<longrightarrow>
        (\<forall>k x. map_of (cache s) k = Some x \<longrightarrow> map_of (cache s') k = Some x))"
  using assms
proof (induction calls arbitrary: s)
  case Nil
  then show ?case by simp
next
  case (Cons p calls)
  obtain e c where p: "p = (e, c)" by (cases p)
  from call_step_total [OF Cons.prems, of n e c]
  obtain s1 where S: "call_step (n + 3) e c s = Some s1" "reg_ok s1"
    "cache_backed s \<longrightarrow> cache_backed s1"
    "\<not> is_reset c \<longrightarrow> (\<forall>k x. map_of (cache s) k = Some x \<longrightarrow> map_of (cache s1) k = Some x)"
    by blast
  from Cons.IH [OF S(2)]
  obtain s' where R: "run_calls (n + 3) calls s1 = Some s'" "reg_ok s'"
    "cache_backed s1 \<longrightarrow> cache_backed s'"
    "(\<forall>(e, c)\<in>set calls. \<not> is_reset c) \<longrightarrow>
        (\<forall>k x. map_of (cache s1) k = Some x \<longrightarrow> map_of (cache s') k = Some x)"
    by blast
  have "run_calls (n + 3) (p # calls) s = Some s'" using p S(1) R(1) by simp
  then show ?case using S(3,4) R(2,3,4) p by auto
qed


subsection \<open>Port\<close>

lemma decimal_foldl:
  "foldl (\<lambda>acc c. 10 * acc + digit_val c) a v = a * 10 ^ length v + decimal v"
  unfolding decimal_def
proof (induction v arbitrary: a)
  case Nil
  show ?case by simp
next
  case (Cons c cs)
  let ?f = "\<lambda>acc c. 10 * acc + digit_val c"
  have "foldl ?f a (c # cs) = foldl ?f (10 * a + digit_val c) cs" by simp
  also have "\<dots> = (10 * a + digit_val c) * 10 ^ length cs + foldl ?f 0 cs"
    by (rule Cons.IH)
  finally have l: "foldl ?f a (c # cs) =
      (10 * a + digit_val c) * 10 ^ length cs + foldl ?f 0 cs" .
  have "foldl ?f 0 (c # cs) = foldl ?f (digit_val c) cs" by simp
  also have "\<dots> = digit_val c * 10 ^ length cs + foldl ?f 0 cs"
    by (rule Cons.IH)
  finally have r: "foldl ?f 0 (c # cs) = digit_val c * 10 ^ length cs + foldl ?f 0 cs" .
  show ?case unfolding l r by (simp add: algebra_simps)
qed

lemma decimal_Cons: "decimal (c # cs) = digit_val c * 10 ^ length cs + decimal cs"
  using decimal_foldl [of "digit_val c" cs] by (simp add: decimal_def)

lemma is_digit_val: "is_digit c \<Longrightarrow> digit_val c \<le> 9 \<and> of_char c = digit_val c + (48::nat)"
  unfolding is_digit_def digit_val_def less_eq_char_def by simp arith

lemma decimal_bound: "\<forall>c\<in>set v. is_digit c \<Longrightarrow> decimal v < 10 ^ length v"
proof (induction v)
  case Nil
  show ?case by (simp add: decimal_def)
next
  case (Cons c cs)
  have d: "digit_val c \<le> 9" using Cons.prems is_digit_val by simp
  have "decimal cs < 10 ^ length cs" using Cons by simp
  moreover have "digit_val c * 10 ^ length cs \<le> 9 * 10 ^ length cs"
    using d by (rule mult_le_mono1)
  ultimately have "digit_val c * 10 ^ length cs + decimal cs < 10 * 10 ^ length cs"
    by linarith
  then show ?case by (simp add: decimal_Cons)
qed

lemma digit_less_iff:
  "is_digit a \<Longrightarrow> is_digit b \<Longrightarrow> a < b \<longleftrightarrow> digit_val a < digit_val b"
  using is_digit_val [of a] is_digit_val [of b] by (simp add: less_char_def)

lemma digit_eq_iff:
  "is_digit a \<Longrightarrow> is_digit b \<Longrightarrow> a = b \<longleftrightarrow> digit_val a = digit_val b"
proof
  assume h: "is_digit a" "is_digit b" "digit_val a = digit_val b"
  then have "of_char a = (of_char b :: nat)" using is_digit_val by simp
  then show "a = b" by simp
qed simp

lemma lex_less_decimal:
  "length xs = length ys \<Longrightarrow> \<forall>c\<in>set xs. is_digit c \<Longrightarrow> \<forall>c\<in>set ys. is_digit c
     \<Longrightarrow> xs < ys \<longleftrightarrow> decimal xs < decimal ys"
proof (induction xs ys rule: list_induct2)
  case Nil
  show ?case by simp
next
  case (Cons x xs y ys)
  let ?p = "(10::nat) ^ length xs"
  have len: "length ys = length xs" using Cons.hyps by simp
  have bx: "decimal xs < ?p" using Cons.prems decimal_bound [of xs] by simp
  have "decimal ys < 10 ^ length ys" using Cons.prems decimal_bound [of ys] by simp
  then have bnd_y: "decimal ys < ?p" by (simp only: len)
  have IH: "xs < ys \<longleftrightarrow> decimal xs < decimal ys" using Cons by simp
  have dl: "x < y \<longleftrightarrow> digit_val x < digit_val y"
    using Cons.prems by (simp add: digit_less_iff)
  have de: "x = y \<longleftrightarrow> digit_val x = digit_val y"
    using Cons.prems by (simp add: digit_eq_iff)
  have lt: "digit_val x * ?p + decimal xs < digit_val y * ?p + decimal ys"
    if "digit_val x < digit_val y"
  proof -
    have "digit_val x * ?p + decimal xs < (digit_val x + 1) * ?p" using bx by simp
    also have "\<dots> \<le> digit_val y * ?p" using that by (intro mult_le_mono1) simp
    finally show ?thesis by simp
  qed
  have gt: "digit_val y * ?p + decimal ys < digit_val x * ?p + decimal xs"
    if "digit_val y < digit_val x"
  proof -
    have "digit_val y * ?p + decimal ys < (digit_val y + 1) * ?p" using bnd_y by simp
    also have "\<dots> \<le> digit_val x * ?p" using that by (intro mult_le_mono1) simp
    finally show ?thesis by simp
  qed
  show ?case
  proof (cases "digit_val x < digit_val y")
    case True
    then show ?thesis using lt dl by (simp add: decimal_Cons len)
  next
    case False
    show ?thesis
    proof (cases "digit_val x = digit_val y")
      case True
      then show ?thesis using IH de dl by (simp add: decimal_Cons len)
    next
      case ne: False
      then have yx: "digit_val y < digit_val x" using False by simp
      show ?thesis using gt [OF yx] dl de ne False by (simp add: decimal_Cons len)
    qed
  qed
qed

lemma Port_digits_None: "Port_digits v = None \<longleftrightarrow> (\<forall>c\<in>set v. is_digit c)"
  by (induction v) (auto simp: is_digit_def)

lemma decimal_65535: "decimal ''65535'' = 65535"
  by (simp add: decimal_def digit_val_def)

text \<open>
  Claim C9. For a string of exactly five decimal digits the bytewise comparison
  \<^verbatim>\<open>v > "65535"\<close> of \<^verbatim>\<open>Port\<close> agrees with the comparison of the integers: \<^verbatim>\<open>Port\<close>
  answers with the range error exactly when the number is above 65535, and accepts
  the string otherwise.
\<close>

theorem Port_five_digits_lexicographic:
  assumes "length v = 5" and "\<forall>c\<in>set v. is_digit c"
  shows "(v > ''65535'') = (decimal v > 65535) \<and>
         Port v = (if decimal v > 65535 then Some ''port must be between 1 and 65535''
                   else None)"
proof -
  have d: "\<forall>c\<in>set ''65535''. is_digit c" by (simp add: is_digit_def)
  have "''65535'' < v \<longleftrightarrow> decimal ''65535'' < decimal v"
    using assms d by (intro lex_less_decimal) simp_all
  then have cmp: "(v > ''65535'') = (decimal v > 65535)" by (simp only: decimal_65535)
  have ne: "v \<noteq> []" "v \<noteq> ''0''" using assms(1) by auto
  have "Port_digits v = None" using assms(2) by (simp add: Port_digits_None)
  then have "Port v = (if v > ''65535'' then Some ''port must be between 1 and 65535''
                       else None)"
    using ne assms(1) by (simp add: Port_def)
  then show ?thesis using cmp by simp
qed

theorem Port_five_digits_lexicographic_witness:
  "(''70000'' > ''65535'') = (decimal ''70000'' > 65535) \<and>
   Port ''70000'' = Some ''port must be between 1 and 65535'' \<and>
   Port ''65535'' = None"
  using Port_five_digits_lexicographic [of "''70000''"]
        Port_five_digits_lexicographic [of "''65535''"]
  by (simp add: is_digit_def decimal_def digit_val_def)

subsection \<open>Report and Value\<close>

lemma Report_loop_count:
  "snd (Report_loop sv results (w, m)) =
     m + length (filter (\<lambda>res. \<not> Optional res \<and> (\<not> Present res \<or> Err res \<noteq> None)) results)"
  by (induction results arbitrary: w m)
     (auto simp: report_entry_def Let_def split: option.splits)

text \<open>
  Claim C5. The count \<^verbatim>\<open>Report\<close> returns is the number of results that are required
  and are absent or carry a validator error; optional results never count. One
  present and valid, one required and absent and one required, present and invalid
  result give 2. \<^verbatim>\<open>MustValidate\<close> exits with status 2 exactly when the count of the
  results of \<^verbatim>\<open>CheckAll\<close> is positive.
\<close>

theorem Report_missing_count:
  "snd (Report e results) =
     length (filter (\<lambda>res. \<not> Optional res \<and> (\<not> Present res \<or> Err res \<noteq> None)) results) \<and>
   (Present r1 \<and> Err r1 = None \<and> \<not> Optional r2 \<and> \<not> Present r2 \<and>
    \<not> Optional r3 \<and> Present r3 \<and> Err r3 \<noteq> None \<longrightarrow> snd (Report e [r1, r2, r3]) = 2) \<and>
   (CheckAll n e s = Some (Returned results, s') \<longrightarrow>
      (\<exists>s''. MustValidate n e s =
         Some (if 0 < snd (Report e results) then Exited 2 else Returned (), s'')))"
proof -
  have cnt: "snd (Report e rs) =
      length (filter (\<lambda>res. \<not> Optional res \<and> (\<not> Present res \<or> Err res \<noteq> None)) rs)" for rs
    by (simp add: Report_def Let_def Report_loop_count)
  have three: "Present r1 \<and> Err r1 = None \<and> \<not> Optional r2 \<and> \<not> Present r2 \<and>
    \<not> Optional r3 \<and> Present r3 \<and> Err r3 \<noteq> None \<longrightarrow> snd (Report e [r1, r2, r3]) = 2"
    by (simp add: cnt)
  have mv: "CheckAll n e s = Some (Returned results, s') \<longrightarrow>
      (\<exists>s''. MustValidate n e s =
         Some (if 0 < snd (Report e results) then Exited 2 else Returned (), s''))"
    by (simp add: MustValidate_def Let_def case_prod_beta)
  show ?thesis using cnt three mv by blast
qed

theorem Report_missing_count_witness:
  "snd (Report Map.empty [res_present, res_missing, res_invalid]) = 2 \<and>
   (\<exists>s''. MustValidate 1 Map.empty st_three = Some (Exited 2, s''))"
proof -
  let ?sorted = "[res_invalid, res_missing, res_present]"
  note inst = Report_missing_count [of Map.empty ?sorted res_present res_missing res_invalid
      1 st_three st_three]
  have ca: "CheckAll 1 Map.empty st_three = Some (Returned ?sorted, st_three)"
    by (simp add: st_three_def res_present_def res_missing_def res_invalid_def
        req_missing_def requirement_of_def)
  have c3: "snd (Report Map.empty ?sorted) = 2"
    using inst by (simp add: res_present_def res_missing_def res_invalid_def)
  obtain s'' where "MustValidate 1 Map.empty st_three =
      Some (if 0 < snd (Report Map.empty ?sorted) then Exited 2 else Returned (), s'')"
    using inst ca by blast
  then have mv: "MustValidate 1 Map.empty st_three = Some (Exited 2, s'')"
    by (simp only: c3) simp
  have "Present res_present \<and> Err res_present = None \<and> \<not> Optional res_missing \<and>
      \<not> Present res_missing \<and> \<not> Optional res_invalid \<and> Present res_invalid \<and>
      Err res_invalid \<noteq> None"
    by (simp add: res_present_def res_missing_def res_invalid_def)
  then have "snd (Report Map.empty [res_present, res_missing, res_invalid]) = 2"
    using Report_missing_count [of Map.empty "[]" res_present res_missing res_invalid]
    by blast
  then show ?thesis using mv by blast
qed

lemma Report_single_invalid:
  assumes "Err res = Some m" and "Present res \<or> Optional res"
  shows "fst (Report e [res]) =
     (fst (Report e []) @ pad_right 20 (Name res) @ '' '' @ pad_right 12 (Source res) @ '' '' @
      pad_right 8 (if \<not> Optional res then ''yes'' else ''no'') @ '' '' @
      pad_right 9 (if Sensitive res then ''yes'' else ''no'') @ '' '' @
      pad_right 8 ''invalid'' @ '' '' @ ''Error: '') @ m @ [CHR 0x0A]"
  using assms by (auto simp: Report_def Let_def report_entry_def format_row_def)

text \<open>
  Claim C6: the report never contains the value of a sensitive result. The code
  prints the validator error of a result as it is. \<^verbatim>\<open>Check\<close> on the sensitive
  \<^verbatim>\<open>API_SECRET\<close>, with a validator whose error quotes the value, returns a result whose
  row in the report contains the whole value, whatever the environment says about
  \<^verbatim>\<open>ENVREQ_SHOW_VALUES\<close>.
\<close>

theorem Report_leaks_sensitive_value:
  "Check 1 env_leak req_leak init_registry =
     Some (Returned res_leak,
           \<lparr>reg = [(''API_SECRET'', req_leak)], cache = [(''API_SECRET'', res_leak)],
            frozen = False, stderr = []\<rparr>) \<and>
   Sensitive res_leak \<and> Value res_leak = ''sk_test_1234567890'' \<and>
   sublist ''sk_test_1234567890'' (fst (Report e [res_leak]))"
proof -
  have chk: "Check 1 env_leak req_leak init_registry =
     Some (Returned res_leak,
           \<lparr>reg = [(''API_SECRET'', req_leak)], cache = [(''API_SECRET'', res_leak)],
            frozen = False, stderr = []\<rparr>)"
    by (simp add: init_registry_def env_leak_def req_leak_def res_leak_def
        merge_and_load_def register_def load_def resolve_def Let_def quoting_validator_def)
  have err: "Err res_leak = Some ((''invalid duration: time: invalid duration '' @ [CHR 0x22]) @
      ''sk_test_1234567890'' @ [CHR 0x22])"
    by (simp add: res_leak_def)
  have p: "Present res_leak \<or> Optional res_leak" by (simp add: res_leak_def)
  have "sublist ''sk_test_1234567890'' (fst (Report e [res_leak]))"
    unfolding Report_single_invalid [OF err p] sublist_def
    by (metis append.assoc)
  then show ?thesis using chk by (simp add: res_leak_def)
qed

subsection \<open>Check over sequences of calls\<close>

lemma init_registry_ok: "reg_ok init_registry \<and> cache_backed init_registry"
  by (simp add: init_registry_def reg_ok_def keys_named_def cache_backed_def)

text \<open>
  Claim C10. Every sequence of \<^verbatim>\<open>Check\<close>, \<^verbatim>\<open>CheckAll\<close>, \<^verbatim>\<open>Value\<close>, \<^verbatim>\<open>Report\<close>,
  \<^verbatim>\<open>Freeze\<close> and \<^verbatim>\<open>Reset\<close> calls from the initial registry ends, and in the state it
  reaches every name with a cached result has a requirement.
\<close>

theorem cache_backed_reachable:
  "\<exists>s. run_calls (n + 3) calls init_registry = Some s \<and>
       dom (map_of (cache s)) \<subseteq> dom (map_of (reg s))"
  using run_calls_total [of init_registry n calls] init_registry_ok
  by (auto simp: cache_backed_def)

theorem cache_backed_reachable_witness:
  "\<exists>s. run_calls 3 [(Map.empty, CallCheck req_port_plain), (Map.empty, CallFreeze),
                    (Map.empty, CallCheck req_missing), (Map.empty, CallCheckAll),
                    (Map.empty, CallValue ''PORT''), (Map.empty, CallReset),
                    (Map.empty, CallCheck req_missing)] init_registry = Some s \<and>
       dom (map_of (cache s)) \<subseteq> dom (map_of (reg s))"
  using cache_backed_reachable [of 0 "[(Map.empty, CallCheck req_port_plain),
      (Map.empty, CallFreeze), (Map.empty, CallCheck req_missing), (Map.empty, CallCheckAll),
      (Map.empty, CallValue ''PORT''), (Map.empty, CallReset),
      (Map.empty, CallCheck req_missing)]"]
  by simp



text \<open>
  Claim C3. On a frozen registry, \<^verbatim>\<open>Check\<close> for a name without a requirement logs a
  warning and returns the result of the ordinary merge and load if the requirement
  is optional; if it is required, \<^verbatim>\<open>Check\<close> logs, runs \<^verbatim>\<open>CheckAll\<close>, writes the report
  of its results to standard error and then panics, and the name stays undeclared.
  For a name that has a requirement, \<^verbatim>\<open>Check\<close> is the ordinary merge and load, frozen
  or not, and writes nothing.
\<close>

theorem Check_freeze_gate:
  assumes "reg_ok s"
  shows "(frozen s \<and> map_of (reg s) (Name r) = None \<and> Optional r \<longrightarrow>
           Check (Suc n) e r s =
             Some (Returned (fst (merge_and_load e r (log_print (warning_message r) s))),
                   snd (merge_and_load e r (log_print (warning_message r) s))) \<and>
           stderr (snd (merge_and_load e r (log_print (warning_message r) s))) =
             stderr s @ [warning_message r @ [CHR 0x0A]]) \<and>
         (frozen s \<and> map_of (reg s) (Name r) = None \<and> \<not> Optional r \<longrightarrow>
           (\<exists>results s1.
              CheckAll (Suc (Suc n)) e (log_print state_header (log_print (fatal_message r) s)) =
                Some (Returned results, s1) \<and>
              Check (Suc (Suc (Suc n))) e r s =
                Some (Panicked (panic_message r), write_stderr (fst (Report e results)) s1) \<and>
              reg s1 = reg s \<and>
              stderr (write_stderr (fst (Report e results)) s1) =
                stderr s @ [fatal_message r @ [CHR 0x0A], state_header @ [CHR 0x0A],
                            fst (Report e results)])) \<and>
         (map_of (reg s) (Name r) \<noteq> None \<longrightarrow>
           Check (Suc n) e r s =
             Some (Returned (fst (merge_and_load e r s)), snd (merge_and_load e r s)) \<and>
           stderr (snd (merge_and_load e r s)) = stderr s)"
proof (intro conjI impI)
  assume a: "frozen s \<and> map_of (reg s) (Name r) = None \<and> Optional r"
  let ?s0 = "log_print (warning_message r) s"
  show "Check (Suc n) e r s = Some (Returned (fst (merge_and_load e r ?s0)),
                   snd (merge_and_load e r ?s0))"
    using a by (simp add: case_prod_beta Let_def)
  have "keys_named ?s0" using assms by (simp add: reg_ok_def keys_named_def)
  from merge_and_load_props(6) [OF this, of e r "fst (merge_and_load e r ?s0)"
      "snd (merge_and_load e r ?s0)"]
  show "stderr (snd (merge_and_load e r ?s0)) = stderr s @ [warning_message r @ [CHR 0x0A]]"
    by simp
next
  assume a: "frozen s \<and> map_of (reg s) (Name r) = None \<and> \<not> Optional r"
  then have T: "frozen s" "map_of (reg s) (Name r) = None" "\<not> Optional r" by simp_all
  from Check_panics [OF assms T, of n e]
  show "\<exists>results s1.
              CheckAll (Suc (Suc n)) e (log_print state_header (log_print (fatal_message r) s)) =
                Some (Returned results, s1) \<and>
              Check (Suc (Suc (Suc n))) e r s =
                Some (Panicked (panic_message r), write_stderr (fst (Report e results)) s1) \<and>
              reg s1 = reg s \<and>
              stderr (write_stderr (fst (Report e results)) s1) =
                stderr s @ [fatal_message r @ [CHR 0x0A], state_header @ [CHR 0x0A],
                            fst (Report e results)]"
    by auto
next
  assume a: "map_of (reg s) (Name r) \<noteq> None"
  show "Check (Suc n) e r s =
             Some (Returned (fst (merge_and_load e r s)), snd (merge_and_load e r s))"
    using a by (rule Check_registered)
  have "keys_named s" using assms by (simp add: reg_ok_def)
  from merge_and_load_props(6) [OF this, of e r "fst (merge_and_load e r s)"
      "snd (merge_and_load e r s)"]
  show "stderr (snd (merge_and_load e r s)) = stderr s" by simp
qed

theorem Check_freeze_gate_witness:
  "(\<exists>res s'. Check 1 Map.empty req_late_optional st_port_frozen = Some (Returned res, s') \<and>
      stderr s' = [warning_message req_late_optional @ [CHR 0x0A]]) \<and>
   (\<exists>results s1. Check 3 Map.empty req_missing st_port_frozen =
      Some (Panicked (panic_message req_missing), s1) \<and>
      stderr s1 = [fatal_message req_missing @ [CHR 0x0A], state_header @ [CHR 0x0A],
                   fst (Report Map.empty results)] \<and>
      CheckAll 2 Map.empty (log_print state_header (log_print (fatal_message req_missing)
        st_port_frozen)) = Some (Returned results, s1\<lparr>stderr := butlast (stderr s1)\<rparr>)) \<and>
   (\<exists>res s'. Check 1 Map.empty req_port_strict st_port_frozen = Some (Returned res, s') \<and>
      stderr s' = [])"
proof -
  have ok: "reg_ok st_port_frozen"
    by (simp add: st_port_frozen_def reg_ok_def keys_named_def req_port_plain_def)
  have a: "frozen st_port_frozen \<and> map_of (reg st_port_frozen) (Name req_late_optional) = None \<and>
      Optional req_late_optional"
    by (simp add: st_port_frozen_def req_late_optional_def)
  have b: "frozen st_port_frozen \<and> map_of (reg st_port_frozen) (Name req_missing) = None \<and>
      \<not> Optional req_missing"
    by (simp add: st_port_frozen_def req_missing_def)
  have c: "map_of (reg st_port_frozen) (Name req_port_strict) \<noteq> None"
    by (simp add: st_port_frozen_def req_port_strict_def)
  have e: "stderr st_port_frozen = []" by (simp add: st_port_frozen_def)
  have 1: "\<exists>res s'. Check 1 Map.empty req_late_optional st_port_frozen = Some (Returned res, s') \<and>
      stderr s' = [warning_message req_late_optional @ [CHR 0x0A]]"
    using Check_freeze_gate [OF ok, of req_late_optional 0 Map.empty] a e
    by (simp del: Check.simps)
  from Check_freeze_gate [OF ok, of req_missing 0 Map.empty] b e
  obtain results s1 where P:
    "CheckAll (Suc (Suc 0)) Map.empty
       (log_print state_header (log_print (fatal_message req_missing) st_port_frozen)) =
         Some (Returned results, s1)"
    "Check (Suc (Suc (Suc 0))) Map.empty req_missing st_port_frozen =
         Some (Panicked (panic_message req_missing),
               write_stderr (fst (Report Map.empty results)) s1)"
    "stderr (write_stderr (fst (Report Map.empty results)) s1) =
       [fatal_message req_missing @ [CHR 0x0A], state_header @ [CHR 0x0A],
        fst (Report Map.empty results)]"
    by auto
  have "(write_stderr (fst (Report Map.empty results)) s1)
      \<lparr>stderr := butlast (stderr (write_stderr (fst (Report Map.empty results)) s1))\<rparr> = s1"
    by (simp add: write_stderr_def)
  then have 2: "\<exists>results s1. Check 3 Map.empty req_missing st_port_frozen =
      Some (Panicked (panic_message req_missing), s1) \<and>
      stderr s1 = [fatal_message req_missing @ [CHR 0x0A], state_header @ [CHR 0x0A],
                   fst (Report Map.empty results)] \<and>
      CheckAll 2 Map.empty (log_print state_header (log_print (fatal_message req_missing)
        st_port_frozen)) = Some (Returned results, s1\<lparr>stderr := butlast (stderr s1)\<rparr>)"
    using P by (auto simp: numeral_2_eq_2 numeral_3_eq_3 simp del: Check.simps CheckAll.simps)
  have 3: "\<exists>res s'. Check 1 Map.empty req_port_strict st_port_frozen = Some (Returned res, s') \<and>
      stderr s' = []"
    using Check_freeze_gate [OF ok, of req_port_strict 0 Map.empty] c e
    by (simp del: Check.simps)
  show ?thesis using 1 2 3 by blast
qed

text \<open>
  Claim C4. When nothing is cached for the name and the call passes the freeze gate,
  \<^verbatim>\<open>Check\<close> returns and caches a result that carries the merged requirement \<open>R\<close>; the
  result is present with the value of the environment if the variable is set (also
  to the empty string), else present with the default of \<open>R\<close> if that is not empty,
  else absent with an empty value; its error is what the validator of \<open>R\<close> says about
  the value if the result is present and \<open>R\<close> has a validator, and \<^verbatim>\<open>nil\<close> otherwise.
\<close>

theorem Check_first_resolution:
  assumes "reg_ok s" and "map_of (cache s) (Name r) = None"
    and "\<not> (frozen s \<and> map_of (reg s) (Name r) = None \<and> \<not> Optional r)"
  shows "\<exists>res s' R. Check (Suc n) e r s = Some (Returned res, s') \<and>
           map_of (reg s') (Name r) = Some R \<and>
           R = (case map_of (reg s) (Name r) of
                  Some existing \<Rightarrow> merge_requirement existing r | None \<Rightarrow> r) \<and>
           map_of (cache s') (Name r) = Some res \<and>
           requirement_of res = R \<and>
           (case e (Name r) of
              Some v \<Rightarrow> Present res \<and> Value res = v
            | None \<Rightarrow> if Default R \<noteq> [] then Present res \<and> Value res = Default R
                      else \<not> Present res \<and> Value res = []) \<and>
           Err res = (if Present res
                      then (case Validate R of Some f \<Rightarrow> f (Value res) | None \<Rightarrow> None)
                      else None)"
proof -
  define R where "R = (case map_of (reg s) (Name r) of
                  Some existing \<Rightarrow> merge_requirement existing r | None \<Rightarrow> r)"
  from Check_passes [OF assms(1,3), of n e]
  obtain res s' where P: "Check (Suc n) e r s = Some (Returned res, s')"
     "map_of (reg s') = (map_of (reg s))(Name r \<mapsto> R)"
     "map_of (cache s') = (map_of (cache s))(Name r \<mapsto> res)"
     "res = (case map_of (cache s) (Name r) of Some c \<Rightarrow> c | None \<Rightarrow> resolve e R)"
    unfolding R_def by blast
  have nm: "Name R = Name r"
    using assms(1) by (auto simp: R_def reg_ok_def split: option.splits dest: keys_named_lookup)
  have res: "res = resolve e R" using P(4) assms(2) by simp
  have 1: "requirement_of res = R"
    by (cases R) (simp add: res resolve_def requirement_of_def Let_def split: option.splits)
  have 2: "(case e (Name r) of
              Some v \<Rightarrow> Present res \<and> Value res = v
            | None \<Rightarrow> if Default R \<noteq> [] then Present res \<and> Value res = Default R
                      else \<not> Present res \<and> Value res = [])"
    by (simp add: res resolve_def nm Let_def split: option.splits)
  have 3: "Err res = (if Present res
                      then (case Validate R of Some f \<Rightarrow> f (Value res) | None \<Rightarrow> None)
                      else None)"
    by (simp add: res resolve_def nm Let_def split: option.splits)
  show ?thesis using P(1,2,3) 1 2 3 unfolding R_def by simp
qed

theorem Check_first_resolution_witness:
  "\<exists>res s'. Check 1 Map.empty req_port_strict st_missing = Some (Returned res, s') \<and>
     map_of (cache s') ''PORT'' = Some res \<and> requirement_of res = req_port_strict \<and>
     Present res \<and> Value res = ''8080'' \<and> Err res = None"
proof -
  have ok: "reg_ok st_missing"
    by (simp add: st_missing_def reg_ok_def keys_named_def req_missing_def)
  have miss: "map_of (cache st_missing) (Name req_port_strict) = None"
    by (simp add: st_missing_def req_port_strict_def)
  have gate: "\<not> (frozen st_missing \<and> map_of (reg st_missing) (Name req_port_strict) = None \<and>
      \<not> Optional req_port_strict)"
    by (simp add: st_missing_def)
  have port: "Port ''8080'' = None" by (simp add: Port_def)
  from Check_first_resolution [OF ok miss gate, of 0 Map.empty]
  show ?thesis
    by (auto simp: req_port_strict_def st_missing_def port simp del: Check.simps)
qed

subsection \<open>The canonical requirement\<close>

lemma merge_all_Some:
  "\<exists>R. merge_all (Some d) ds = Some R \<and> Name R = Name d \<and>
     Optional R = (Optional d \<and> list_all Optional ds) \<and>
     Sensitive R = (Sensitive d \<or> list_ex Sensitive ds) \<and>
     Description R = first_nonempty (Description d # map Description ds) \<and>
     Source R = first_nonempty (Source d # map Source ds) \<and>
     Default R = first_nonempty (Default d # map Default ds) \<and>
     Validate R = first_some (Validate d # map Validate ds)"
proof (induction ds arbitrary: d)
  case Nil
  show ?case by (rule exI [of _ d]) simp
next
  case (Cons x ds)
  from Cons.IH [of "merge_requirement d x"]
  obtain R where R: "merge_all (Some (merge_requirement d x)) ds = Some R"
    "Name R = Name (merge_requirement d x)"
    "Optional R = (Optional (merge_requirement d x) \<and> list_all Optional ds)"
    "Sensitive R = (Sensitive (merge_requirement d x) \<or> list_ex Sensitive ds)"
    "Description R = first_nonempty (Description (merge_requirement d x) # map Description ds)"
    "Source R = first_nonempty (Source (merge_requirement d x) # map Source ds)"
    "Default R = first_nonempty (Default (merge_requirement d x) # map Default ds)"
    "Validate R = first_some (Validate (merge_requirement d x) # map Validate ds)"
    by blast
  have M: "Optional (merge_requirement d x) = (Optional d \<and> Optional x)"
    "Sensitive (merge_requirement d x) = (Sensitive d \<or> Sensitive x)"
    "Description (merge_requirement d x) = (if Description d \<noteq> [] then Description d else Description x)"
    "Source (merge_requirement d x) = (if Source d \<noteq> [] then Source d else Source x)"
    "Default (merge_requirement d x) = (if Default d \<noteq> [] then Default d else Default x)"
    "Validate (merge_requirement d x) = (if Validate d \<noteq> None then Validate d else Validate x)"
    by (simp_all add: merge_requirement_fields)
  have 1: "merge_all (Some d) (x # ds) = Some R" using R(1) by simp
  have 2: "Name R = Name d" using R(2) by simp
  have 3: "Optional R = (Optional d \<and> list_all Optional (x # ds))"
    using R(3) M(1) by simp
  have 4: "Sensitive R = (Sensitive d \<or> list_ex Sensitive (x # ds))"
    using R(4) M(2) by simp
  have 5: "Description R = first_nonempty (Description d # map Description (x # ds))"
    using R(5) M(3) by simp
  have 6: "Source R = first_nonempty (Source d # map Source (x # ds))"
    using R(6) M(4) by simp
  have 7: "Default R = first_nonempty (Default d # map Default (x # ds))"
    using R(7) M(5) by simp
  have 8: "Validate R = first_some (Validate d # map Validate (x # ds))"
    using R(8) M(6) by simp
  show ?case using 1 2 3 4 5 6 7 8 by blast
qed

lemma Check_reg_step:
  assumes "reg_ok s"
  shows "\<exists>out s'. Check (n + 3) e r s = Some (out, s') \<and> reg_ok s' \<and> frozen s' = frozen s \<and>
     (\<not> frozen s \<longrightarrow> is_returned out) \<and>
     map_of (reg s') =
       (if is_returned out
        then (map_of (reg s))(Name r \<mapsto>
               (case map_of (reg s) (Name r) of
                  Some ex \<Rightarrow> merge_requirement ex r | None \<Rightarrow> r))
        else map_of (reg s))"
proof (cases "frozen s \<and> map_of (reg s) (Name r) = None \<and> \<not> Optional r")
  case True
  then have T: "frozen s" "map_of (reg s) (Name r) = None" "\<not> Optional r" by simp_all
  from Check_panics [OF assms T, of n e]
  obtain results s1 where P:
     "Check (Suc (Suc (Suc n))) e r s =
       Some (Panicked (panic_message r), write_stderr (fst (Report e results)) s1)"
     "reg s1 = reg s" "frozen s1 = frozen s"
    by blast
  have "reg_ok (write_stderr (fst (Report e results)) s1)"
    using assms P(2) by (simp add: reg_ok_def keys_named_def)
  then show ?thesis using P T(1) by (simp add: numeral_3_eq_3 del: Check.simps)
next
  case False
  from Check_passes [OF assms False, of "Suc (Suc n)" e]
  obtain res s' where P: "Check (Suc (Suc (Suc n))) e r s = Some (Returned res, s')" "reg_ok s'"
     "map_of (reg s') = (map_of (reg s))(Name r \<mapsto>
        (case map_of (reg s) (Name r) of Some ex \<Rightarrow> merge_requirement ex r | None \<Rightarrow> r))"
     "frozen s' = frozen s"
    by blast
  then show ?thesis by (simp add: numeral_3_eq_3 del: Check.simps)
qed

lemma run_checks_reg:
  assumes "reg_ok s"
  shows "\<exists>outs s'. run_checks (n + 3) calls s = Some (outs, s') \<and>
     length outs = length calls \<and> reg_ok s' \<and>
     (\<not> frozen s \<longrightarrow> list_all is_returned outs) \<and>
     map_of (reg s') N = merge_all (map_of (reg s) N) (accepted N calls outs)"
  using assms
proof (induction calls arbitrary: s)
  case Nil
  then show ?case by simp
next
  case (Cons p calls)
  obtain e r where p: "p = (e, r)" by (cases p)
  from Check_reg_step [OF Cons.prems, of n e r]
  obtain out s1 where S: "Check (n + 3) e r s = Some (out, s1)" "reg_ok s1"
    "frozen s1 = frozen s" "\<not> frozen s \<longrightarrow> is_returned out"
    "map_of (reg s1) =
       (if is_returned out
        then (map_of (reg s))(Name r \<mapsto>
               (case map_of (reg s) (Name r) of
                  Some ex \<Rightarrow> merge_requirement ex r | None \<Rightarrow> r))
        else map_of (reg s))"
    by blast
  from Cons.IH [OF S(2)]
  obtain outs s' where R: "run_checks (n + 3) calls s1 = Some (outs, s')"
    "length outs = length calls" "reg_ok s'"
    "\<not> frozen s1 \<longrightarrow> list_all is_returned outs"
    "map_of (reg s') N = merge_all (map_of (reg s1) N) (accepted N calls outs)"
    by blast
  have run: "run_checks (n + 3) (p # calls) s = Some (out # outs, s')"
    using p S(1) R(1) by (simp del: Check.simps)
  have "merge_all (map_of (reg s1) N) (accepted N calls outs) =
        merge_all (map_of (reg s) N) (accepted N (p # calls) (out # outs))"
    using S(5) p by (auto split: option.splits)
  then show ?case using run R(2,3,4,5) S(3,4) by (simp del: Check.simps)
qed

lemma accepted_names: "d \<in> set (accepted N calls outs) \<Longrightarrow> Name d = N"
proof (induction calls arbitrary: outs)
  case Nil
  then show ?case by simp
next
  case (Cons p calls)
  obtain e r where p: "p = (e, r)" by (cases p)
  show ?case
  proof (cases outs)
    case Nil
    then show ?thesis using Cons.prems by simp
  next
    case (Cons out outs')
    then show ?thesis using Cons.prems Cons.IH [of outs'] p by (simp split: if_splits) blast
  qed
qed

lemma accepted_all_returned:
  "length outs = length calls \<Longrightarrow> list_all is_returned outs \<Longrightarrow>
     accepted N calls outs = filter (\<lambda>r. Name r = N) (map snd calls)"
proof (induction outs calls rule: list_induct2)
  case Nil
  show ?case by simp
next
  case (Cons out outs p calls)
  obtain e r where p: "p = (e, r)" by (cases p)
  show ?case using Cons p by simp
qed

text \<open>
  Claim C2. After a sequence of \<^verbatim>\<open>Check\<close> calls, started where the name \<open>N\<close> has no
  requirement yet, the requirement stored for \<open>N\<close> is determined by the declarations
  of \<open>N\<close> (the requirements of the calls for \<open>N\<close> that returned; on an open registry
  these are all the calls for \<open>N\<close>): it is optional exactly when all of them are,
  sensitive exactly when one of them is, and its description, source, default and
  validator are each the first declared one that is not empty (not \<^verbatim>\<open>nil\<close>). Without
  a declaration the name has no requirement. The run itself always ends.
\<close>

theorem canonical_requirement_merge:
  assumes "reg_ok s" and "map_of (reg s) N = None"
  shows "\<exists>outs s'. run_checks (n + 3) calls s = Some (outs, s') \<and>
     (\<not> frozen s \<longrightarrow> accepted N calls outs = filter (\<lambda>r. Name r = N) (map snd calls)) \<and>
     (let ds = accepted N calls outs in
      case map_of (reg s') N of
        None \<Rightarrow> ds = []
      | Some R \<Rightarrow> ds \<noteq> [] \<and> Name R = N \<and>
          Optional R = list_all Optional ds \<and>
          Sensitive R = list_ex Sensitive ds \<and>
          Description R = first_nonempty (map Description ds) \<and>
          Source R = first_nonempty (map Source ds) \<and>
          Default R = first_nonempty (map Default ds) \<and>
          Validate R = first_some (map Validate ds))"
proof -
  from run_checks_reg [OF assms(1), of n calls N]
  obtain outs s' where R: "run_checks (n + 3) calls s = Some (outs, s')"
    "length outs = length calls"
    "\<not> frozen s \<longrightarrow> list_all is_returned outs"
    "map_of (reg s') N = merge_all None (accepted N calls outs)"
    using assms(2) by auto
  note acc = accepted_all_returned
  note names = accepted_names
  have main: "case map_of (reg s') N of
        None \<Rightarrow> accepted N calls outs = []
      | Some R \<Rightarrow> accepted N calls outs \<noteq> [] \<and> Name R = N \<and>
          Optional R = list_all Optional (accepted N calls outs) \<and>
          Sensitive R = list_ex Sensitive (accepted N calls outs) \<and>
          Description R = first_nonempty (map Description (accepted N calls outs)) \<and>
          Source R = first_nonempty (map Source (accepted N calls outs)) \<and>
          Default R = first_nonempty (map Default (accepted N calls outs)) \<and>
          Validate R = first_some (map Validate (accepted N calls outs))"
  proof (cases "accepted N calls outs")
    case Nil
    then show ?thesis using R(4) by simp
  next
    case (Cons d ds)
    have "Name d = N" using names [of d N calls outs] Cons by simp
    moreover from merge_all_Some [of d ds]
    obtain Rq where "merge_all (Some d) ds = Some Rq" "Name Rq = Name d"
     "Optional Rq = (Optional d \<and> list_all Optional ds)"
     "Sensitive Rq = (Sensitive d \<or> list_ex Sensitive ds)"
     "Description Rq = first_nonempty (Description d # map Description ds)"
     "Source Rq = first_nonempty (Source d # map Source ds)"
     "Default Rq = first_nonempty (Default d # map Default ds)"
     "Validate Rq = first_some (Validate d # map Validate ds)"
      by blast
    ultimately show ?thesis using R(4) Cons by simp
  qed
  show ?thesis using R(1) acc [OF R(2)] R(3) main by (simp add: Let_def del: Check.simps)
qed

theorem canonical_requirement_merge_witness:
  "\<exists>outs s'. run_checks 3 [(Map.empty, req_port_plain), ([''PORT'' \<mapsto> ''80''], req_port_strict)]
       init_registry = Some (outs, s') \<and>
     (case map_of (reg s') ''PORT'' of
        None \<Rightarrow> False
      | Some R \<Rightarrow> \<not> Optional R \<and> Sensitive R \<and> Description R = ''Listen port'' \<and>
          Source R = ''server'' \<and> Default R = ''8080'' \<and> Validate R = Some Port)"
proof -
  let ?calls = "[(Map.empty, req_port_plain), ([''PORT'' \<mapsto> ''80''], req_port_strict)]"
  have none: "map_of (reg init_registry) ''PORT'' = None" by (simp add: init_registry_def)
  have nf: "\<not> frozen init_registry" by (simp add: init_registry_def)
  from canonical_requirement_merge [OF conjunct1 [OF init_registry_ok] none, of 0 ?calls] nf
  obtain outs s' where R: "run_checks 3 ?calls init_registry = Some (outs, s')"
    "accepted ''PORT'' ?calls outs = filter (\<lambda>r. Name r = ''PORT'') (map snd ?calls)"
    "let ds = accepted ''PORT'' ?calls outs in
      case map_of (reg s') ''PORT'' of
        None \<Rightarrow> ds = []
      | Some R \<Rightarrow> ds \<noteq> [] \<and> Name R = ''PORT'' \<and>
          Optional R = list_all Optional ds \<and>
          Sensitive R = list_ex Sensitive ds \<and>
          Description R = first_nonempty (map Description ds) \<and>
          Source R = first_nonempty (map Source ds) \<and>
          Default R = first_nonempty (map Default ds) \<and>
          Validate R = first_some (map Validate ds)"
    by auto
  have ds: "accepted ''PORT'' ?calls outs = [req_port_plain, req_port_strict]"
    unfolding R(2) by (simp add: req_port_plain_def req_port_strict_def)
  have "case map_of (reg s') ''PORT'' of
        None \<Rightarrow> False
      | Some R \<Rightarrow> \<not> Optional R \<and> Sensitive R \<and> Description R = ''Listen port'' \<and>
          Source R = ''server'' \<and> Default R = ''8080'' \<and> Validate R = Some Port"
    using R(3) unfolding ds Let_def
    by (simp add: req_port_plain_def req_port_strict_def split: option.splits)
  then show ?thesis using R(1) by blast
qed

subsection \<open>Value lookup\<close>

text \<open>
  A miss looks like an absent variable (against C7 as it is stated, which has \<^verbatim>\<open>Value\<close>
  tell a name without a cached result from a cached result of an absent variable).
  \<^verbatim>\<open>Value\<close> returns a pair, and the pair is the same in both cases: after
  \<^verbatim>\<open>Check\<close> of the required, unset \<^verbatim>\<open>MISSING_VAR\<close>, the lookups of \<^verbatim>\<open>MISSING_VAR\<close>
  (cached) and of \<^verbatim>\<open>NOT_EXISTS\<close> (never declared) are equal.
\<close>

theorem Value_lookup_miss_like_absent:
  "Check 1 Map.empty req_missing init_registry = Some (Returned res_missing, st_missing) \<and>
   map_of (cache st_missing) ''MISSING_VAR'' = Some res_missing \<and>
   map_of (cache st_missing) ''NOT_EXISTS'' = None \<and>
   Value_lookup st_missing ''MISSING_VAR'' = Value_lookup st_missing ''NOT_EXISTS''"
  by (simp add: init_registry_def req_missing_def res_missing_def st_missing_def
      merge_and_load_def register_def load_def resolve_def Value_lookup_def Let_def)

text \<open>
  Claim C7, as the code has it. \<^verbatim>\<open>Value\<close> returns the pair of value and presence:
  the empty string and false for a name without a cached result, the cached value
  and presence otherwise. A true presence therefore means a cached, present value, so
  a cached empty value read from the environment differs from a miss. After a
  \<^verbatim>\<open>Check\<close> that returned, the lookup of its name gives the value and the presence of
  the returned result.
\<close>

theorem Value_lookup_pair:
  "(map_of (cache s) name = None \<longrightarrow> Value_lookup s name = ([], False)) \<and>
   (map_of (cache s) name = Some res \<longrightarrow> Value_lookup s name = (Value res, Present res)) \<and>
   (snd (Value_lookup s name) \<longrightarrow> map_of (cache s) name \<noteq> None) \<and>
   (reg_ok s \<and> Check (Suc n) e r s = Some (Returned res', s') \<longrightarrow>
      Value_lookup s' (Name r) = (Value res', Present res'))"
proof -
  have "Value_lookup s' (Name r) = (Value res', Present res')"
    if ok: "reg_ok s" and chk: "Check (Suc n) e r s = Some (Returned res', s')"
  proof -
    have gate: "\<not> (frozen s \<and> map_of (reg s) (Name r) = None \<and> \<not> Optional r)"
    proof
      assume "frozen s \<and> map_of (reg s) (Name r) = None \<and> \<not> Optional r"
      then have "\<And>x. Check (Suc n) e r s \<noteq> Some (Returned res', x)"
        by (cases n) (auto split: option.splits outcome.splits)
      then show False using chk by blast
    qed
    from Check_passes [OF ok gate, of n e] chk
    have "map_of (cache s') (Name r) = Some res'" by auto
    then show ?thesis by (simp add: Value_lookup_def)
  qed
  then show ?thesis by (auto simp: Value_lookup_def split: option.splits)
qed

theorem Value_lookup_pair_witness:
  "Value_lookup st_missing ''NOT_EXISTS'' = ([], False) \<and>
   Value_lookup st_missing ''MISSING_VAR'' = ([], False) \<and>
   (\<exists>s'. Check 1 [''PORT'' \<mapsto> []] req_port_plain init_registry =
           Some (Returned (res_port_plain\<lparr>Present := True\<rparr>), s') \<and>
         Value_lookup s' ''PORT'' = ([], True))"
proof -
  have a: "map_of (cache st_missing) ''NOT_EXISTS'' = None"
    and b: "map_of (cache st_missing) ''MISSING_VAR'' = Some res_missing"
    by (simp_all add: st_missing_def)
  have 1: "Value_lookup st_missing ''NOT_EXISTS'' = ([], False)"
    using Value_lookup_pair [of st_missing "''NOT_EXISTS''"] a by blast
  have 2: "Value_lookup st_missing ''MISSING_VAR'' = ([], False)"
    using Value_lookup_pair [of st_missing "''MISSING_VAR''" res_missing] b
    by (simp add: res_missing_def)
  obtain s' where c: "Check (Suc 0) [''PORT'' \<mapsto> []] req_port_plain init_registry =
           Some (Returned (res_port_plain\<lparr>Present := True\<rparr>), s')"
    by (simp add: init_registry_def req_port_plain_def res_port_plain_def
        merge_and_load_def register_def load_def resolve_def Let_def)
  have "Value_lookup s' (Name req_port_plain) =
      (Value (res_port_plain\<lparr>Present := True\<rparr>), Present (res_port_plain\<lparr>Present := True\<rparr>))"
    using Value_lookup_pair [where s = init_registry and n = 0 and e = "[''PORT'' \<mapsto> []]"
        and r = req_port_plain and res' = "res_port_plain\<lparr>Present := True\<rparr>" and s' = s']
      c init_registry_ok
    by blast
  then have 3: "Value_lookup s' ''PORT'' = ([], True)"
    by (simp add: req_port_plain_def res_port_plain_def)
  show ?thesis using 1 2 3 c by (auto simp del: Check.simps)
qed

subsection \<open>Concurrent calls\<close>

text \<open>A call that runs alone on an open registry takes five steps and does what the
  sequential \<^verbatim>\<open>Check\<close> does, with at most one read and one validator call.\<close>

lemma single_thread_is_Check:
  assumes "\<not> frozen s"
  shows "\<exists>res s' reads calls.
     Check (Suc n) e r s = Some (Returned res, s') \<and>
     run_schedule e [0, 0, 0, 0, 0] \<lparr>shared = s, env_reads = 0, validator_calls = 0,
        threads = [AtGate r]\<rparr> =
       \<lparr>shared = s', env_reads = reads, validator_calls = calls, threads = [Done res]\<rparr> \<and>
     reads \<le> 1 \<and> calls \<le> 1"
proof -
  obtain r' s1 where rg: "register r s = (r', s1)" by (cases "register r s")
  have n: "Name (resolve e r') = Name r'" by (simp add: resolve_def Let_def split: option.splits prod.splits)
  show ?thesis
    using assms rg n
    by (cases "map_of (cache s1) (Name r')")
       (simp_all add: merge_and_load_def load_def Let_def)
qed

text \<open>
  Claim C8: concurrent calls of \<^verbatim>\<open>Check\<close> for one new name resolve it once and
  return the same result. Between the look into the cache and the store the code
  holds no lock. Two calls for \<^verbatim>\<open>PORT\<close> that take their steps in turn both miss the
  cache and both read the environment. With different requirements they return
  different results (absent for the first, the default for the second); with the
  same requirement the validator runs twice.
\<close>

theorem concurrent_Check_resolves_twice:
  "run_schedule Map.empty [0, 1, 0, 1, 0, 1, 0, 1, 0, 1]
     \<lparr>shared = init_registry, env_reads = 0, validator_calls = 0,
      threads = [AtGate req_port_plain, AtGate req_port_strict]\<rparr> =
   \<lparr>shared = \<lparr>reg = [(''PORT'', requirement_of res_port_merged)],
               cache = [(''PORT'', res_port_merged)], frozen = False, stderr = []\<rparr>,
    env_reads = 2, validator_calls = 1,
    threads = [Done res_port_plain, Done res_port_merged]\<rparr> \<and>
   res_port_plain \<noteq> res_port_merged \<and>
   run_schedule Map.empty [0, 1, 0, 1, 0, 1, 0, 1, 0, 1]
     \<lparr>shared = init_registry, env_reads = 0, validator_calls = 0,
      threads = [AtGate req_port_strict, AtGate req_port_strict]\<rparr> =
   \<lparr>shared = \<lparr>reg = [(''PORT'', req_port_strict)],
               cache = [(''PORT'', res_port_strict)], frozen = False, stderr = []\<rparr>,
    env_reads = 2, validator_calls = 2,
    threads = [Done res_port_strict, Done res_port_strict]\<rparr>"
  by (simp add: init_registry_def req_port_plain_def req_port_strict_def res_port_plain_def
      res_port_merged_def res_port_strict_def requirement_of_def register_def resolve_def
      merge_requirement_def Let_def Port_def)

end
